theory Spec2Isabelle
  imports Complex_Main "HOL-Library.Char_ord" "HOL-Library.Sublist"
begin

section \<open>Regular expressions\<close>

text \<open>
  The source matches strings against regular-expression literals. A JavaScript string is
  modelled as a HOL string, one \<open>char\<close> per code unit; code units above 255 are not
  represented. The code compares characters with ASCII characters and ASCII ranges only
  (and with the no-break space in \<open>\s\<close>), so that every other code unit behaves as one
  that matches nothing.

  A pattern is a value of \<open>regex\<close>, with a constructor for each construct that the
  patterns of the source use:
  \<^item> \<open>Lit l\<close>: the characters of \<open>l\<close>, one after the other;
  \<^item> \<open>Seq a b\<close>: \<open>a\<close> followed by \<open>b\<close>;
  \<^item> \<open>Opt r\<close>: \<open>r?\<close> and \<open>(?:r)?\<close>, greedy;
  \<^item> \<open>Plus P\<close>: \<open>[...]+\<close> for the character class \<open>P\<close>, greedy;
  \<^item> \<open>Rep P n\<close>: \<open>[...]{n}\<close> for the character class \<open>P\<close>;
  \<^item> \<open>Grp r\<close>: the capturing group \<open>(r)\<close>; each pattern of the source has one group;
  \<^item> \<open>Bol\<close> and \<open>Eol\<close>: \<open>^\<close> and \<open>$\<close>, without the multiline flag.
\<close>

datatype regex =
    Lit string
  | Seq regex regex
  | Opt regex
  | Plus "char \<Rightarrow> bool"
  | Rep "char \<Rightarrow> bool" nat
  | Grp regex
  | Bol
  | Eol

text \<open>
  The matcher follows the backtracking semantics of the language definition: the matcher
  of a pattern takes the continuation that matches what follows the pattern, and a state
  made of the end index, the input that is left from that index on, and the text of
  capture group 1 if the group has matched. It returns what the continuation returns on
  the first way of matching that the continuation accepts, and \<open>None\<close> when there is
  none.
\<close>

type_synonym mstate = "nat \<times> string \<times> string option"

text \<open>
  Case folding. Only the ASCII letters are folded here. JavaScript folds other letters
  too, but never to an ASCII character, and the results are compared with ASCII
  characters only: with the characters of a pattern under the flag \<open>i\<close>
  (\<open>canonicalize\<close>), and with the word \<open>newest\<close> (\<open>toLowerCase\<close>).
\<close>

definition toUpperCase_char :: "char \<Rightarrow> char" where
  "toUpperCase_char c =
     (if CHR ''a'' \<le> c \<and> c \<le> CHR ''z'' then char_of (of_char c - (32::nat)) else c)"

definition toLowerCase_char :: "char \<Rightarrow> char" where
  "toLowerCase_char c =
     (if CHR ''A'' \<le> c \<and> c \<le> CHR ''Z'' then char_of (of_char c + (32::nat)) else c)"

definition canonicalize :: "bool \<Rightarrow> char \<Rightarrow> char" where
  "canonicalize ci c = (if ci then toUpperCase_char c else c)"

text \<open>
  The matchers of a literal text, of \<open>[...]{n}\<close> and of \<open>[...]*\<close>; \<open>ci\<close> is the
  flag \<open>i\<close>.
\<close>

fun lit :: "bool \<Rightarrow> string \<Rightarrow> (mstate \<Rightarrow> 'r option) \<Rightarrow> mstate \<Rightarrow> 'r option" where
  "lit ci [] k st = k st"
| "lit ci (c # cs) k (pos, [], cap) = None"
| "lit ci (c # cs) k (pos, x # xs, cap) =
     (if canonicalize ci x = canonicalize ci c then lit ci cs k (Suc pos, xs, cap) else None)"

fun rep :: "(char \<Rightarrow> bool) \<Rightarrow> nat \<Rightarrow> (mstate \<Rightarrow> 'r option) \<Rightarrow> mstate \<Rightarrow> 'r option" where
  "rep P 0 k st = k st"
| "rep P (Suc n) k (pos, [], cap) = None"
| "rep P (Suc n) k (pos, x # xs, cap) =
     (if P x then rep P n k (Suc pos, xs, cap) else None)"

fun star :: "(char \<Rightarrow> bool) \<Rightarrow> (mstate \<Rightarrow> 'r option) \<Rightarrow> mstate \<Rightarrow> 'r option" where
  "star P k (pos, [], cap) = k (pos, [], cap)"
| "star P k (pos, x # xs, cap) =
     (if P x
      then (case star P k (Suc pos, xs, cap) of
              Some r \<Rightarrow> Some r
            | None \<Rightarrow> k (pos, x # xs, cap))
      else k (pos, x # xs, cap))"

fun m :: "bool \<Rightarrow> regex \<Rightarrow> (mstate \<Rightarrow> 'r option) \<Rightarrow> mstate \<Rightarrow> 'r option" where
  "m ci (Lit l) k st = lit ci l k st"
| "m ci (Seq a b) k st = m ci a (\<lambda>st'. m ci b k st') st"
| "m ci (Opt r) k st = (case m ci r k st of Some x \<Rightarrow> Some x | None \<Rightarrow> k st)"
| "m ci (Plus P) k (pos, [], cap) = None"
| "m ci (Plus P) k (pos, x # xs, cap) = (if P x then star P k (Suc pos, xs, cap) else None)"
| "m ci (Rep P n) k st = rep P n k st"
| "m ci (Grp r) k (pos, s, cap) =
     m ci r (\<lambda>(pos', s', cap'). k (pos', s', Some (take (pos' - pos) s))) (pos, s, cap)"
| "m ci Bol k (pos, s, cap) = (if pos = 0 then k (pos, s, cap) else None)"
| "m ci Eol k (pos, s, cap) = (if s = [] then k (pos, s, cap) else None)"

text \<open>The least number of characters that a match of a pattern consumes.\<close>

fun minlen :: "regex \<Rightarrow> nat" where
  "minlen (Lit l) = length l"
| "minlen (Seq a b) = minlen a + minlen b"
| "minlen (Opt r) = 0"
| "minlen (Plus P) = 1"
| "minlen (Rep P n) = n"
| "minlen (Grp r) = minlen r"
| "minlen Bol = 0"
| "minlen Eol = 0"

text \<open>The characters that every match of a case-sensitive pattern consumes.\<close>

fun musts :: "regex \<Rightarrow> char set" where
  "musts (Lit l) = set l"
| "musts (Seq a b) = musts a \<union> musts b"
| "musts (Opt r) = {}"
| "musts (Plus P) = {}"
| "musts (Rep P n) = {}"
| "musts (Grp r) = musts r"
| "musts Bol = {}"
| "musts Eol = {}"

text \<open>
  \<open>String.prototype.match\<close> and \<open>RegExp.prototype.test\<close> with a pattern that is not global:
  the matcher is tried at each start index from 0 on, and the first index at which it
  succeeds gives the result, here the text of group 1 (\<open>None\<close> inside when the group
  took no part in the match).
\<close>

fun search :: "bool \<Rightarrow> regex \<Rightarrow> nat \<Rightarrow> string \<Rightarrow> string option option" where
  "search ci r pos [] = m ci r (\<lambda>(_, _, cap). Some cap) (pos, [], None)"
| "search ci r pos (x # xs) =
     (case m ci r (\<lambda>(_, _, cap). Some cap) (pos, x # xs, None) of
        Some cap \<Rightarrow> Some cap
      | None \<Rightarrow> search ci r (Suc pos) xs)"

definition regex_match :: "bool \<Rightarrow> regex \<Rightarrow> string \<Rightarrow> string option option" where
  "regex_match ci r s = search ci r 0 s"

definition test :: "bool \<Rightarrow> regex \<Rightarrow> string \<Rightarrow> bool" where
  "test ci r s = (regex_match ci r s \<noteq> None)"

text \<open>The pattern that is the sequence of the patterns of a list.\<close>

fun cat :: "regex list \<Rightarrow> regex" where
  "cat [] = Lit []"
| "cat [r] = r"
| "cat (r # rs) = Seq r (cat rs)"

section \<open>The identifier resolver\<close>

text \<open>The class \<open>[a-zA-Z0-9_-]\<close> and the pattern \<open>/^[a-zA-Z0-9_-]{11}$/\<close>.\<close>

definition idchar :: "char \<Rightarrow> bool" where
  "idchar c \<longleftrightarrow>
     (CHR ''a'' \<le> c \<and> c \<le> CHR ''z'') \<or> (CHR ''A'' \<le> c \<and> c \<le> CHR ''Z'') \<or>
     (CHR ''0'' \<le> c \<and> c \<le> CHR ''9'') \<or> c = CHR ''_'' \<or> c = CHR ''-''"

definition id_re :: regex where
  "id_re = cat [Bol, Rep idchar 11, Eol]"

text \<open>
  The five URL patterns of \<open>getVideoId\<close> differ only in the text between the optional
  prefix \<open>(?:https?:\/\/)?(?:www\.)?\<close> and the group \<open>([a-zA-Z0-9_-]{11})\<close>.
\<close>

definition url_re :: "string \<Rightarrow> regex" where
  "url_re l =
     cat [Opt (cat [Lit ''http'', Opt (Lit ''s''), Lit ''://'']), Opt (Lit ''www.''),
          Lit l, Grp (Rep idchar 11)]"

definition shapes :: "string list" where
  "shapes =
     [''youtube.com/watch?v='',
      ''youtube.com/embed/'',
      ''youtube.com/v/'',
      ''youtu.be/'',
      ''youtube.com/shorts/'']"

definition patterns :: "regex list" where
  "patterns = map url_re shapes"

text \<open>
  The loop over the patterns: the first pattern that matches with a non-empty group 1
  gives the result.
\<close>

fun first_capture :: "regex list \<Rightarrow> string \<Rightarrow> string option" where
  "first_capture [] s = None"
| "first_capture (p # ps) s =
     (case regex_match False p s of
        Some (Some c) \<Rightarrow> if c \<noteq> [] then Some c else first_capture ps s
      | _ \<Rightarrow> first_capture ps s)"

definition getVideoId :: "string \<Rightarrow> string option" where
  "getVideoId urlOrId =
     (if test False id_re urlOrId then Some urlOrId else first_capture patterns urlOrId)"


text \<open>
  The specification speaks of a URL shape that captures an 11-character suffix.
  \<open>spec_occurs l s c\<close> states, without any pattern matching, that the text \<open>l\<close> of a
  shape occurs in \<open>s\<close> followed by the 11 characters \<open>c\<close> of an identifier.
\<close>

definition spec_occurs :: "string \<Rightarrow> string \<Rightarrow> string \<Rightarrow> bool" where
  "spec_occurs l s c \<longleftrightarrow> (\<exists>a b. s = a @ l @ c @ b \<and> length c = 11 \<and> list_all idchar c)"

section \<open>JavaScript values\<close>

text \<open>
  The upstream responses are parsed JSON, read by the source without any check of their
  shape. \<open>jsval\<close> is the type of such values, together with \<open>undefined\<close>, which a
  read of an absent property gives. An object is the list of its own properties, at most
  one for a name. A number is a real: the code tests numbers for being zero and passes
  them on, nothing more.
\<close>

datatype jsval =
    JUndefined
  | JNull
  | JBool bool
  | JNum real
  | JStr string
  | JArr "jsval list"
  | JObj "(string \<times> jsval) list"

text \<open>The truth value of a value in a condition, and the operator \<open>||\<close>.\<close>

fun truthy :: "jsval \<Rightarrow> bool" where
  "truthy JUndefined = False"
| "truthy JNull = False"
| "truthy (JBool b) = b"
| "truthy (JNum x) = (x \<noteq> 0)"
| "truthy (JStr s) = (s \<noteq> [])"
| "truthy (JArr xs) = True"
| "truthy (JObj kvs) = True"

definition or_js :: "jsval \<Rightarrow> jsval \<Rightarrow> jsval" where
  "or_js a b = (if truthy a then a else b)"

fun nullish :: "jsval \<Rightarrow> bool" where
  "nullish JUndefined = True"
| "nullish JNull = True"
| "nullish v = False"

text \<open>
  \<open>read_prop v k\<close> is the read \<open>v.k\<close> of a value that is neither \<open>null\<close> nor
  \<open>undefined\<close> (on those the read throws a TypeError, which each caller below writes
  out as a guard), for the property names the source reads: none of them is a property of
  a string, a number, a boolean or an array.
\<close>

fun read_prop :: "jsval \<Rightarrow> string \<Rightarrow> jsval" where
  "read_prop (JObj kvs) k = (case map_of kvs k of Some v \<Rightarrow> v | None \<Rightarrow> JUndefined)"
| "read_prop v k = JUndefined"

definition opt_read :: "jsval \<Rightarrow> string \<Rightarrow> jsval" where
  "opt_read v k = (if nullish v then JUndefined else read_prop v k)"

text \<open>
  \<open>Array.isArray\<close>, and \<open>Array.prototype.slice\<close> with both arguments given: a negative
  index counts from the end of the array, and a number that is not an integer is cut
  towards zero first (\<open>ToIntegerOrInfinity\<close>).
\<close>

fun isArray :: "jsval \<Rightarrow> bool" where
  "isArray (JArr xs) = True"
| "isArray v = False"

definition ToIntegerOrInfinity :: "real \<Rightarrow> int" where
  "ToIntegerOrInfinity x = (if x < 0 then \<lceil>x\<rceil> else \<lfloor>x\<rfloor>)"

definition slice :: "int \<Rightarrow> int \<Rightarrow> 'a list \<Rightarrow> 'a list" where
  "slice start stop xs =
     (let len = int (length xs);
          k = (if start < 0 then max (len + start) 0 else min start len);
          final = (if stop < 0 then max (len + stop) 0 else min stop len)
      in take (nat (final - k)) (drop (nat k) xs))"

text \<open>\<open>String.prototype.toLowerCase\<close> and \<open>String.prototype.includes\<close>.\<close>

definition toLowerCase :: "string \<Rightarrow> string" where
  "toLowerCase s = map toLowerCase_char s"

fun includes_js :: "string \<Rightarrow> string \<Rightarrow> bool" where
  "includes_js [] t = (t = [])"
| "includes_js (x # xs) t = (prefix t (x # xs) \<or> includes_js xs t)"

section \<open>Errors, requests and the environment\<close>

text \<open>
  What the code throws: \<open>Error m\<close> is \<open>new Error(m)\<close> with a fixed message;
  \<open>SerpApiError status text\<close> is the error with the message
  \<open>SerpAPI error: ${status} - ${text}\<close>, \<open>HttpError status\<close> the one with the message
  \<open>HTTP error! status: ${status}\<close>; \<open>TypeError\<close> is thrown by the language on a read of
  a property of \<open>null\<close> or a call of what is no function, \<open>SyntaxError\<close> by
  \<open>response.json()\<close> on a body that is not JSON, and \<open>FetchFailed\<close> stands for the
  rejection of \<open>fetch\<close> on a failure of the transport.
\<close>

datatype error =
    Error string
  | SerpApiError nat string
  | HttpError nat
  | TypeError
  | SyntaxError
  | FetchFailed

text \<open>
  A request is the URL without its query and the query parameters appended to it, in
  order. A response has its status, its body as text, and the value its body parses to as
  JSON, if it does. The environment of a call is the API key of the process and the
  network, a function from the request made to the outcome of \<open>fetch\<close>; the requests
  that one call makes differ from each other. Each operation returns the list of the
  requests it has issued, in order, with its result.
\<close>

datatype request = Request string "(string \<times> jsval) list"

record response =
  status :: nat
  body :: string
  json :: "jsval option"

definition ok :: "response \<Rightarrow> bool" where
  "ok r \<longleftrightarrow> 200 \<le> status r \<and> status r \<le> 299"

datatype fetch_result = Rejected | Resolved response

record env =
  SERPAPI_KEY :: "string option"
  fetch :: "request \<Rightarrow> fetch_result"

definition SERPAPI_BASE_URL :: string where
  "SERPAPI_BASE_URL = ''https://serpapi.com/search.json''"

definition key_missing :: "env \<Rightarrow> bool" where
  "key_missing e \<longleftrightarrow> SERPAPI_KEY e = None \<or> SERPAPI_KEY e = Some []"

section \<open>Video information\<close>

text \<open>
  \<open>getVideoInfoData\<close>. The fields other than \<open>videoId\<close> are whatever values the
  response holds under the names read. \<open>Object.keys(data)\<close>, called for the log, throws
  when \<open>data\<close> is \<open>null\<close>.
\<close>

record VideoInfoResponse =
  videoId :: string
  title :: jsval
  viewCount :: jsval
  publishDate :: jsval
  channelName :: jsval
  commentCount :: jsval
  commentsNextPageToken :: jsval
  commentsSortingTokens :: jsval

definition videoInfoOf :: "string \<Rightarrow> jsval \<Rightarrow> error + VideoInfoResponse" where
  "videoInfoOf vid data =
     (if nullish data then Inl TypeError
      else Inr \<lparr>videoId = vid,
                title = read_prop data ''title'',
                viewCount = read_prop data ''views'',
                publishDate = read_prop data ''published_date'',
                channelName = opt_read (read_prop data ''channel'') ''name'',
                commentCount = read_prop data ''extracted_comment_count'',
                commentsNextPageToken = read_prop data ''comments_next_page_token'',
                commentsSortingTokens = read_prop data ''comments_sorting_token''\<rparr>)"

definition videoInfoRequest :: "string \<Rightarrow> string \<Rightarrow> request" where
  "videoInfoRequest key vid =
     Request SERPAPI_BASE_URL
       [(''api_key'', JStr key), (''engine'', JStr ''youtube_video''), (''v'', JStr vid)]"

definition getVideoInfoData :: "env \<Rightarrow> string \<Rightarrow> request list \<times> (error + VideoInfoResponse)" where
  "getVideoInfoData e url =
     (case getVideoId url of
        None \<Rightarrow> ([], Inl (Error ''Invalid YouTube URL or video ID''))
      | Some vid \<Rightarrow>
          if vid = [] then ([], Inl (Error ''Invalid YouTube URL or video ID''))
          else if key_missing e
          then ([], Inl (Error ''SERPAPI_KEY is not set in environment variables''))
          else
            (let req = videoInfoRequest (the (SERPAPI_KEY e)) vid in
             case fetch e req of
               Rejected \<Rightarrow> ([req], Inl FetchFailed)
             | Resolved r \<Rightarrow>
                 if \<not> ok r then ([req], Inl (SerpApiError (status r) (body r)))
                 else
                   (case json r of
                      None \<Rightarrow> ([req], Inl SyntaxError)
                    | Some data \<Rightarrow> ([req], videoInfoOf vid data))))"


section \<open>Comments and replies\<close>

datatype sort_order = Relevance | Time

text \<open>
  One record serves the entries of both pages: a reply is built without the properties
  \<open>replies\<close> and \<open>repliesToken\<close>, and an absent property reads as \<open>undefined\<close>.
\<close>

record Comment =
  commentId :: jsval
  author :: jsval
  comment_text :: jsval
  time :: jsval
  likes :: jsval
  replies :: jsval
  repliesToken :: jsval

record CommentsPage =
  page_videoId :: jsval
  videoTitle :: jsval
  comments :: "Comment list"
  page_commentCount :: nat
  nextPageToken :: jsval

record RepliesPage =
  parentCommentId :: jsval
  page_replies :: "Comment list"
  replyCount :: nat
  replies_nextPageToken :: jsval

text \<open>The callback of \<open>map\<close> on a comment entry; reading a property of \<open>null\<close> throws.\<close>

definition mapComment :: "jsval \<Rightarrow> error + Comment" where
  "mapComment comment =
     (if nullish comment then Inl TypeError
      else Inr \<lparr>commentId = or_js (read_prop comment ''comment_id'') (JStr []),
                author = or_js (opt_read (read_prop comment ''channel'') ''name'') (JStr ''Anonymous''),
                comment_text = or_js (read_prop comment ''content'') (JStr []),
                time = or_js (read_prop comment ''published_date'') (JStr []),
                likes = or_js (read_prop comment ''extracted_vote_count'') (JNum 0),
                replies = or_js (read_prop comment ''replies_count'') (JNum 0),
                repliesToken = or_js (read_prop comment ''replies_next_page_token'') JNull\<rparr>)"

definition mapReply :: "jsval \<Rightarrow> error + Comment" where
  "mapReply reply =
     (if nullish reply then Inl TypeError
      else Inr \<lparr>commentId = or_js (read_prop reply ''comment_id'') (JStr []),
                author = or_js (opt_read (read_prop reply ''channel'') ''name'') (JStr ''Anonymous''),
                comment_text = or_js (read_prop reply ''content'') (JStr []),
                time = or_js (read_prop reply ''published_date'') (JStr []),
                likes = or_js (read_prop reply ''extracted_vote_count'') (JNum 0),
                replies = JUndefined,
                repliesToken = JUndefined\<rparr>)"

text \<open>\<open>Array.prototype.map\<close> with a callback that may throw: the first throw ends it.\<close>

fun map_js :: "('a \<Rightarrow> error + 'b) \<Rightarrow> 'a list \<Rightarrow> error + 'b list" where
  "map_js f [] = Inr []"
| "map_js f (x # xs) =
     (case f x of
        Inl e \<Rightarrow> Inl e
      | Inr y \<Rightarrow> (case map_js f xs of Inl e \<Rightarrow> Inl e | Inr ys \<Rightarrow> Inr (y # ys)))"

text \<open>
  The part of \<open>getCommentsData\<close> after \<open>response.json()\<close>: \<open>Object.keys(data)\<close>
  throws on \<open>null\<close>, then the page is built.
\<close>

definition commentsPageOf :: "jsval \<Rightarrow> string \<Rightarrow> real \<Rightarrow> error + CommentsPage" where
  "commentsPageOf data extractedVideoId lmt =
     (if nullish data then Inl TypeError
      else
        (let vid = or_js (read_prop data ''video_id'') (JStr extractedVideoId);
             vtitle = read_prop data ''title'';
             next = or_js (read_prop data ''comments_next_page_token'') JUndefined
         in if \<not> truthy (read_prop data ''comments'') \<or> \<not> isArray (read_prop data ''comments'')
            then Inr \<lparr>page_videoId = vid, videoTitle = vtitle, comments = [],
                       page_commentCount = 0, nextPageToken = next\<rparr>
            else
              (case read_prop data ''comments'' of
                 JArr cs \<Rightarrow>
                   (case map_js mapComment (slice 0 (ToIntegerOrInfinity lmt) cs) of
                      Inl e \<Rightarrow> Inl e
                    | Inr cms \<Rightarrow>
                        Inr \<lparr>page_videoId = vid, videoTitle = vtitle, comments = cms,
                             page_commentCount = length cms, nextPageToken = next\<rparr>)
               | _ \<Rightarrow> Inl TypeError)))"

definition repliesPageOf :: "jsval \<Rightarrow> error + RepliesPage" where
  "repliesPageOf data =
     (if nullish data then Inl TypeError
      else
        (let parent = or_js (read_prop data ''comment_parent_id'') (JStr []);
             next = or_js (read_prop data ''replies_next_page_token'') JUndefined
         in if \<not> truthy (read_prop data ''replies'') \<or> \<not> isArray (read_prop data ''replies'')
            then Inr \<lparr>parentCommentId = parent, page_replies = [], replyCount = 0,
                       replies_nextPageToken = next\<rparr>
            else
              (case read_prop data ''replies'' of
                 JArr rs \<Rightarrow>
                   (case map_js mapReply rs of
                      Inl e \<Rightarrow> Inl e
                    | Inr rps \<Rightarrow>
                        Inr \<lparr>parentCommentId = parent, page_replies = rps,
                             replyCount = length rps, replies_nextPageToken = next\<rparr>)
               | _ \<Rightarrow> Inl TypeError)))"

subsection \<open>Choice of the page token\<close>

text \<open>
  The callback of \<open>find\<close>: \<open>token.title.toLowerCase().includes("newest")\<close>. It throws
  when the entry is \<open>null\<close> or its title is not a string.
\<close>

definition newest_callback :: "jsval \<Rightarrow> error + bool" where
  "newest_callback token =
     (if nullish token then Inl TypeError
      else case read_prop token ''title'' of
             JStr t \<Rightarrow> Inr (includes_js (toLowerCase t) ''newest'')
           | _ \<Rightarrow> Inl TypeError)"

fun find_js :: "(jsval \<Rightarrow> error + bool) \<Rightarrow> jsval list \<Rightarrow> error + jsval" where
  "find_js f [] = Inr JUndefined"
| "find_js f (x # xs) =
     (case f x of
        Inl e \<Rightarrow> Inl e
      | Inr b \<Rightarrow> if b then Inr x else find_js f xs)"

text \<open>
  \<open>tokenToUse\<close> before the test \<open>if (!tokenToUse)\<close>. A sorting-token value that is
  truthy and not an array has no \<open>find\<close> method: the call throws.
\<close>

definition tokenToUse :: "sort_order \<Rightarrow> VideoInfoResponse \<Rightarrow> error + jsval" where
  "tokenToUse srt videoInfo =
     (if srt = Time \<and> truthy (commentsSortingTokens videoInfo)
      then
        (case commentsSortingTokens videoInfo of
           JArr ts \<Rightarrow>
             (case find_js newest_callback ts of
                Inl e \<Rightarrow> Inl e
              | Inr newestFirstToken \<Rightarrow>
                  if truthy newestFirstToken
                  then Inr (read_prop newestFirstToken ''token'')
                  else Inr (commentsNextPageToken videoInfo))
         | _ \<Rightarrow> Inl TypeError)
      else Inr (commentsNextPageToken videoInfo))"

text \<open>
  The specification speaks of a title that, compared case-insensitively, contains
  \<open>newest\<close>. \<open>spec_contains_newest\<close> states that in the words of the specification,
  with no case folding of the code: somewhere in the title stand six characters that are
  the letters of \<open>newest\<close>, each in lower or in upper case.
\<close>

definition spec_contains_newest :: "string \<Rightarrow> bool" where
  "spec_contains_newest t \<longleftrightarrow>
     (\<exists>a b c1 c2 c3 c4 c5 c6. t = a @ [c1, c2, c3, c4, c5, c6] @ b \<and>
        (c1 = CHR ''n'' \<or> c1 = CHR ''N'') \<and> (c2 = CHR ''e'' \<or> c2 = CHR ''E'') \<and>
        (c3 = CHR ''w'' \<or> c3 = CHR ''W'') \<and> (c4 = CHR ''e'' \<or> c4 = CHR ''E'') \<and>
        (c5 = CHR ''s'' \<or> c5 = CHR ''S'') \<and> (c6 = CHR ''t'' \<or> c6 = CHR ''T''))"

subsection \<open>The operations\<close>

record CommentsParams =
  url :: string
  limit :: "real option"
  sort_by :: "sort_order option"
  pageToken :: "string option"

definition pageRequest :: "string \<Rightarrow> jsval \<Rightarrow> request" where
  "pageRequest key token =
     Request SERPAPI_BASE_URL
       [(''api_key'', JStr key), (''engine'', JStr ''youtube_video''),
        (''next_page_token'', token)]"

text \<open>
  The second half of \<open>getCommentsData\<close>: the page request and the mapping of its response.
  \<open>reqs\<close> are the requests issued so far.
\<close>

definition fetchCommentsPage ::
  "env \<Rightarrow> request list \<Rightarrow> jsval \<Rightarrow> string \<Rightarrow> real \<Rightarrow> request list \<times> (error + CommentsPage)" where
  "fetchCommentsPage e reqs token extractedVideoId lmt =
     (let req = pageRequest (the (SERPAPI_KEY e)) token in
      case fetch e req of
        Rejected \<Rightarrow> (reqs @ [req], Inl FetchFailed)
      | Resolved r \<Rightarrow>
          if \<not> ok r then (reqs @ [req], Inl (SerpApiError (status r) (body r)))
          else
            (case json r of
               None \<Rightarrow> (reqs @ [req], Inl SyntaxError)
             | Some data \<Rightarrow> (reqs @ [req], commentsPageOf data extractedVideoId lmt)))"

definition getCommentsData :: "env \<Rightarrow> CommentsParams \<Rightarrow> request list \<times> (error + CommentsPage)" where
  "getCommentsData e p =
     (let lmt = (case limit p of None \<Rightarrow> 100 | Some l \<Rightarrow> l);
          srt = (case sort_by p of None \<Rightarrow> Relevance | Some s \<Rightarrow> s)
      in
      if key_missing e
      then ([], Inl (Error ''SERPAPI_KEY is not set in environment variables''))
      else if pageToken p \<noteq> None \<and> pageToken p \<noteq> Some []
      then fetchCommentsPage e [] (JStr (the (pageToken p))) [] lmt
      else
        (case getVideoId (url p) of
           None \<Rightarrow> ([], Inl (Error ''Invalid YouTube URL or video ID''))
         | Some possibleVideoId \<Rightarrow>
             if possibleVideoId = [] then ([], Inl (Error ''Invalid YouTube URL or video ID''))
             else
               (case getVideoInfoData e (url p) of
                  (reqs, Inl err) \<Rightarrow> (reqs, Inl err)
                | (reqs, Inr videoInfo) \<Rightarrow>
                    (case tokenToUse srt videoInfo of
                       Inl err \<Rightarrow> (reqs, Inl err)
                     | Inr token \<Rightarrow>
                         if \<not> truthy token
                         then (reqs, Inl (Error ''Could not find valid comments token''))
                         else fetchCommentsPage e reqs token (videoId videoInfo) lmt))))"

definition getRepliesData :: "env \<Rightarrow> string \<Rightarrow> request list \<times> (error + RepliesPage)" where
  "getRepliesData e token =
     (if key_missing e
      then ([], Inl (Error ''SERPAPI_KEY is not set in environment variables''))
      else
        (let req = pageRequest (the (SERPAPI_KEY e)) (JStr token) in
         case fetch e req of
           Rejected \<Rightarrow> ([req], Inl FetchFailed)
         | Resolved r \<Rightarrow>
             if \<not> ok r then ([req], Inl (SerpApiError (status r) (body r)))
             else
               (case json r of
                  None \<Rightarrow> ([req], Inl SyntaxError)
                | Some data \<Rightarrow> ([req], repliesPageOf data))))"

subsection \<open>The tool handlers\<close>

text \<open>
  A handler answers with one text: the result printed as JSON, or \<open>Error: \<close> followed by
  the message of the error it caught.
\<close>

datatype 'a tool_text = JsonText 'a | ErrorText error

definition getReplies ::
  "env \<Rightarrow> string option \<Rightarrow> real option \<Rightarrow> sort_order option \<Rightarrow> string option
     \<Rightarrow> request list \<times> CommentsPage tool_text" where
  "getReplies e u l s t =
     (if (u = None \<or> u = Some []) \<and> (t = None \<or> t = Some [])
      then ([], ErrorText (Error ''Either url or pageToken must be provided''))
      else
        (case getCommentsData e
                \<lparr>url = (case u of None \<Rightarrow> [] | Some v \<Rightarrow> v),
                 limit = Some (case l of None \<Rightarrow> 100 | Some v \<Rightarrow> v),
                 sort_by = Some (case s of None \<Rightarrow> Relevance | Some v \<Rightarrow> v),
                 pageToken = t\<rparr> of
           (reqs, Inl err) \<Rightarrow> (reqs, ErrorText err)
         | (reqs, Inr result) \<Rightarrow> (reqs, JsonText result)))"

definition getCommentReplies :: "env \<Rightarrow> string \<Rightarrow> request list \<times> RepliesPage tool_text" where
  "getCommentReplies e t =
     (case getRepliesData e t of
        (reqs, Inl err) \<Rightarrow> (reqs, ErrorText err)
      | (reqs, Inr result) \<Rightarrow> (reqs, JsonText result))"

section \<open>Basic information from the watch page\<close>

record BasicVideoInfo =
  basic_title :: "string option"
  basic_channelName :: "string option"
  publishedAt :: "string option"
  basic_viewCount :: "string option"

definition is_space :: "char \<Rightarrow> bool" where
  "is_space c \<longleftrightarrow> c \<in> set [CHR 0x09, CHR 0x0A, CHR 0x0B, CHR 0x0C, CHR 0x0D, CHR '' '', CHR 0xA0]"

definition not_quote :: "char \<Rightarrow> bool" where
  "not_quote c \<longleftrightarrow> c \<noteq> CHR 0x22"

definition meta_re :: "string \<Rightarrow> regex" where
  "meta_re name =
     cat [Lit ''<meta'', Plus is_space, Lit (''name='' @ [CHR 0x22] @ name @ [CHR 0x22]),
          Plus is_space, Lit (''content='' @ [CHR 0x22]), Grp (Plus not_quote), Lit [CHR 0x22]]"

definition field_re :: "string \<Rightarrow> regex" where
  "field_re name =
     cat [Lit ([CHR 0x22] @ name @ [CHR 0x22] @ '':'' @ [CHR 0x22]), Grp (Plus not_quote),
          Lit [CHR 0x22]]"

definition capture1 :: "string option option \<Rightarrow> string option" where
  "capture1 mt = (case mt of None \<Rightarrow> None | Some c \<Rightarrow> c)"

definition watchRequest :: "string \<Rightarrow> request" where
  "watchRequest vid = Request (''https://www.youtube.com/watch?v='' @ vid) []"

text \<open>The body of the \<open>try\<close> block of \<open>fetchBasicVideoInfo\<close>.\<close>

definition fetchBasicVideoInfo_try :: "env \<Rightarrow> string \<Rightarrow> error + BasicVideoInfo" where
  "fetchBasicVideoInfo_try e vid =
     (case fetch e (watchRequest vid) of
        Rejected \<Rightarrow> Inl FetchFailed
      | Resolved r \<Rightarrow>
          if \<not> ok r then Inl (HttpError (status r))
          else
            (let html = body r in
             Inr \<lparr>basic_title = capture1 (regex_match True (meta_re ''title'') html),
                  basic_channelName = capture1 (regex_match True (meta_re ''author'') html),
                  publishedAt = capture1 (regex_match False (field_re ''publishDate'') html),
                  basic_viewCount = capture1 (regex_match False (field_re ''viewCount'') html)\<rparr>))"

text \<open>The \<open>catch\<close> block logs the error and returns the four fields undefined.\<close>

definition fetchBasicVideoInfo :: "env \<Rightarrow> string \<Rightarrow> error + BasicVideoInfo" where
  "fetchBasicVideoInfo e vid =
     (case fetchBasicVideoInfo_try e vid of
        Inl err \<Rightarrow>
          Inr \<lparr>basic_title = None, basic_channelName = None, publishedAt = None,
               basic_viewCount = None\<rparr>
      | Inr info \<Rightarrow> Inr info)"


section \<open>A network with one answer\<close>

text \<open>The \<open>fetch\<close> of an environment that answers every request with the same result.\<close>

definition always :: "fetch_result \<Rightarrow> request \<Rightarrow> fetch_result" where
  "always r req = r"

section \<open>Properties of the identifier resolver\<close>

subsection \<open>The pattern of a bare identifier\<close>

text \<open>
  \<open>[...]{n}\<close> matches exactly when the next \<open>n\<close> characters are in the class. The
  anchor \<open>^\<close> fails at every start index but the first, so that the pattern of a bare
  identifier accepts the 11-character strings over the class and no others.
\<close>

lemma rep_eq:
  "rep P n k (pos, s, cap) =
     (if n \<le> length s \<and> list_all P (take n s) then k (pos + n, drop n s, cap) else None)"
proof (induction n arbitrary: pos s)
  case 0
  then show ?case by simp
next
  case (Suc n)
  then show ?case by (cases s) auto
qed

lemma search_bol:
  "0 < pos \<Longrightarrow> search ci id_re pos s = None"
  by (induction s arbitrary: pos) (auto simp: id_re_def)

lemma m_id_re:
  "m False id_re (\<lambda>(_, _, cap). Some cap) (0, s, None) =
     (if length s = 11 \<and> list_all idchar s then Some None else None)"
  by (auto simp: id_re_def rep_eq)

lemma test_id_re:
  "test False id_re s \<longleftrightarrow> length s = 11 \<and> list_all idchar s"
  by (cases s) (simp_all add: test_def regex_match_def search_bol m_id_re)


subsection \<open>The URL patterns\<close>

text \<open>A URL of a shape is matched by the pattern of the shape, at index 0.\<close>

lemma match_url:
  assumes "l \<in> set shapes" and "sch \<in> {[], ''http://'', ''https://''}" and "w \<in> {[], ''www.''}"
    and "length v = 11" and "list_all idchar v"
  shows "regex_match False (url_re l) (sch @ w @ l @ v @ rest) = Some (Some v)"
  using assms
  by (auto simp: shapes_def regex_match_def url_re_def rep_eq canonicalize_def)

text \<open>
  A match consumes at least \<open>minlen\<close> characters: a URL pattern matches no string shorter
  than its literal text and the 11 characters of the identifier.
\<close>

lemma lit_needs:
  "\<forall>p t c x. k (p, t, c) = Some x \<longrightarrow> n \<le> length t \<Longrightarrow>
     lit ci l k (pos, s, cap) = Some x \<Longrightarrow> length l + n \<le> length s"
proof (induction l arbitrary: pos s)
  case Nil
  then show ?case by auto
next
  case (Cons a l)
  then show ?case by (cases s) (auto split: if_splits)
qed

lemma star_needs:
  "\<forall>p t c x. k (p, t, c) = Some x \<longrightarrow> n \<le> length t \<Longrightarrow>
     star P k (pos, s, cap) = Some x \<Longrightarrow> n \<le> length s"
proof (induction s arbitrary: pos)
  case Nil
  then have "k (pos, [], cap) = Some x" by simp
  with Nil.prems(1) have "n \<le> length ([]::string)" by blast
  then show ?case by simp
next
  case (Cons a s)
  show ?case
  proof (cases "P a \<and> star P k (Suc pos, s, cap) \<noteq> None")
    case True
    with Cons.prems(2) have "star P k (Suc pos, s, cap) = Some x" by auto
    from Cons.IH [OF Cons.prems(1) this] show ?thesis by simp
  next
    case False
    with Cons.prems(2) have "k (pos, a # s, cap) = Some x" by (auto split: if_splits)
    with Cons.prems(1) show ?thesis by blast
  qed
qed

lemma m_minlen:
  "\<forall>p t c x. k (p, t, c) = Some x \<longrightarrow> n \<le> length t \<Longrightarrow>
     m ci r k (pos, s, cap) = Some x \<Longrightarrow> minlen r + n \<le> length s"
proof (induction r arbitrary: k n pos s cap x)
  case (Lit l)
  then show ?case using lit_needs [of k n ci l pos s cap x] by simp
next
  case (Seq a b)
  have kb: "\<forall>p t c x. m ci b k (p, t, c) = Some x \<longrightarrow> minlen b + n \<le> length t"
    using Seq.IH(2) [OF Seq.prems(1)] by blast
  from Seq.prems(2) have "m ci a (\<lambda>st'. m ci b k st') (pos, s, cap) = Some x" by simp
  from Seq.IH(1) [OF kb this] show ?case by simp
next
  case (Opt r)
  from Opt.prems(2) have "m ci r k (pos, s, cap) = Some x \<or> k (pos, s, cap) = Some x"
    by (simp split: option.splits)
  then show ?case
  proof
    assume "m ci r k (pos, s, cap) = Some x"
    from Opt.IH [OF Opt.prems(1) this] show ?thesis by simp
  next
    assume "k (pos, s, cap) = Some x"
    with Opt.prems(1) show ?thesis by auto
  qed
next
  case (Plus P)
  then show ?case
  proof (cases s)
    case Nil
    with Plus show ?thesis by simp
  next
    case (Cons a t)
    with Plus.prems(2) have "star P k (Suc pos, t, cap) = Some x" by (simp split: if_splits)
    from star_needs [OF Plus.prems(1) this] Cons show ?thesis by simp
  qed
next
  case (Rep P j)
  from Rep.prems(2) have j: "j \<le> length s" and "k (pos + j, drop j s, cap) = Some x"
    by (auto simp: rep_eq split: if_splits)
  with Rep.prems(1) have "n \<le> length (drop j s)" by blast
  with j show ?case by simp
next
  case (Grp r)
  let ?k = "\<lambda>(pos', s', cap'). k (pos', s', Some (take (pos' - pos) s))"
  have "\<forall>p t c x. ?k (p, t, c) = Some x \<longrightarrow> n \<le> length t"
    using Grp.prems(1) by auto
  moreover from Grp.prems(2) have "m ci r ?k (pos, s, cap) = Some x" by simp
  ultimately show ?case using Grp.IH [of ?k n pos s cap x] by simp
next
  case Bol
  from Bol.prems(2) have "k (pos, s, cap) = Some x" by (simp split: if_splits)
  with Bol.prems(1) have "n \<le> length s" by blast
  then show ?case by simp
next
  case Eol
  from Eol.prems(2) have "k (pos, s, cap) = Some x" by (simp split: if_splits)
  with Eol.prems(1) have "n \<le> length s" by blast
  then show ?case by simp
qed

lemma minlen_url_re: "minlen (url_re l) = length l + 11"
  by (simp add: url_re_def)

lemma m_url_len:
  assumes "m False (url_re l) k (pos, s, cap) = Some x"
  shows "length l + 11 \<le> length s"
  using m_minlen [of k 0 False "url_re l" pos s cap x] assms by (simp add: minlen_url_re)

lemma search_short:
  "length s < length l + 11 \<Longrightarrow> search False (url_re l) pos s = None"
proof (induction s arbitrary: pos)
  case Nil
  have "m False (url_re l) (\<lambda>(_, _, cap). Some cap) (pos, [], None) = None"
    using m_url_len [of l _ pos "[]" None] by (cases "m False (url_re l) (\<lambda>(_, _, cap). Some cap) (pos, [], None)") auto
  then show ?case by simp
next
  case (Cons a s)
  have "m False (url_re l) (\<lambda>(_, _, cap). Some cap) (pos, a # s, None) = None"
    using m_url_len [of l _ pos "a # s" None] Cons.prems
    by (cases "m False (url_re l) (\<lambda>(_, _, cap). Some cap) (pos, a # s, None)") fastforce+
  with Cons show ?case by simp
qed


text \<open>
  A match of a case-sensitive pattern consumes the characters of \<open>musts\<close>: a URL pattern
  matches nowhere in a text without a dot.
\<close>

lemma lit_musts:
  "\<forall>p t c x. k (p, t, c) = Some x \<longrightarrow> A \<subseteq> set t \<Longrightarrow>
     lit False l k (pos, s, cap) = Some x \<Longrightarrow> set l \<union> A \<subseteq> set s"
proof (induction l arbitrary: pos s)
  case Nil
  then have "k (pos, s, cap) = Some x" by simp
  with Nil.prems(1) have "A \<subseteq> set s" by blast
  then show ?case by simp
next
  case (Cons a l)
  show ?case
  proof (cases s)
    case Nil
    with Cons.prems(2) show ?thesis by simp
  next
    case (Cons b t)
    with Cons.prems(2) have ab: "b = a" and "lit False l k (Suc pos, t, cap) = Some x"
      by (auto simp: canonicalize_def split: if_splits)
    from Cons.IH [OF Cons.prems(1) this(2)] have "set l \<union> A \<subseteq> set t" .
    with ab Cons show ?thesis by auto
  qed
qed

lemma star_musts:
  "\<forall>p t c x. k (p, t, c) = Some x \<longrightarrow> A \<subseteq> set t \<Longrightarrow>
     star P k (pos, s, cap) = Some x \<Longrightarrow> A \<subseteq> set s"
proof (induction s arbitrary: pos)
  case Nil
  then have "k (pos, [], cap) = Some x" by simp
  with Nil.prems(1) show ?case by blast
next
  case (Cons a s)
  show ?case
  proof (cases "P a \<and> star P k (Suc pos, s, cap) \<noteq> None")
    case True
    with Cons.prems(2) have "star P k (Suc pos, s, cap) = Some x" by auto
    from Cons.IH [OF Cons.prems(1) this] show ?thesis by auto
  next
    case False
    with Cons.prems(2) have "k (pos, a # s, cap) = Some x" by (auto split: if_splits)
    with Cons.prems(1) show ?thesis by blast
  qed
qed

lemma m_musts:
  "\<forall>p t c x. k (p, t, c) = Some x \<longrightarrow> A \<subseteq> set t \<Longrightarrow>
     m False r k (pos, s, cap) = Some x \<Longrightarrow> musts r \<union> A \<subseteq> set s"
proof (induction r arbitrary: k A pos s cap x)
  case (Lit l)
  then show ?case using lit_musts [of k A l pos s cap x] by simp
next
  case (Seq a b)
  have kb: "\<forall>p t c x. m False b k (p, t, c) = Some x \<longrightarrow> musts b \<union> A \<subseteq> set t"
    using Seq.IH(2) [OF Seq.prems(1)] by blast
  from Seq.prems(2) have "m False a (\<lambda>st'. m False b k st') (pos, s, cap) = Some x" by simp
  from Seq.IH(1) [OF kb this] show ?case by (simp add: Un_assoc)
next
  case (Opt r)
  from Opt.prems(2) have "m False r k (pos, s, cap) = Some x \<or> k (pos, s, cap) = Some x"
    by (simp split: option.splits)
  then show ?case
  proof
    assume "m False r k (pos, s, cap) = Some x"
    from Opt.IH [OF Opt.prems(1) this] show ?thesis by simp
  next
    assume "k (pos, s, cap) = Some x"
    with Opt.prems(1) have "A \<subseteq> set s" by blast
    then show ?thesis by simp
  qed
next
  case (Plus P)
  show ?case
  proof (cases s)
    case Nil
    with Plus show ?thesis by simp
  next
    case (Cons a t)
    with Plus.prems(2) have "star P k (Suc pos, t, cap) = Some x" by (simp split: if_splits)
    from star_musts [OF Plus.prems(1) this] Cons show ?thesis by auto
  qed
next
  case (Rep P j)
  from Rep.prems(2) have "k (pos + j, drop j s, cap) = Some x"
    by (auto simp: rep_eq split: if_splits)
  with Rep.prems(1) have "A \<subseteq> set (drop j s)" by blast
  then show ?case using set_drop_subset [of j s] by auto
next
  case (Grp r)
  let ?k = "\<lambda>(pos', s', cap'). k (pos', s', Some (take (pos' - pos) s))"
  have "\<forall>p t c x. ?k (p, t, c) = Some x \<longrightarrow> A \<subseteq> set t"
    using Grp.prems(1) by auto
  moreover from Grp.prems(2) have "m False r ?k (pos, s, cap) = Some x" by simp
  ultimately show ?case using Grp.IH [of ?k A pos s cap x] by simp
next
  case Bol
  from Bol.prems(2) have "k (pos, s, cap) = Some x" by (simp split: if_splits)
  with Bol.prems(1) have "A \<subseteq> set s" by blast
  then show ?case by simp
next
  case Eol
  from Eol.prems(2) have "k (pos, s, cap) = Some x" by (simp split: if_splits)
  with Eol.prems(1) have "A \<subseteq> set s" by blast
  then show ?case by simp
qed

lemma musts_url_re: "musts (url_re l) = set l"
  by (simp add: url_re_def)

lemma search_musts:
  "\<not> set l \<subseteq> set s \<Longrightarrow> search False (url_re l) pos s = None"
proof (induction s arbitrary: pos)
  case Nil
  have "m False (url_re l) (\<lambda>(_, _, cap). Some cap) (pos, [], None) = None"
  proof (cases "m False (url_re l) (\<lambda>(_, _, cap). Some cap) (pos, [], None)")
    case (Some x)
    from m_musts [of "\<lambda>(_, _, cap). Some cap" "{}", OF _ Some] Nil.prems show ?thesis
      by (simp add: musts_url_re)
  qed simp
  then show ?case by simp
next
  case (Cons a s)
  have "m False (url_re l) (\<lambda>(_, _, cap). Some cap) (pos, a # s, None) = None"
  proof (cases "m False (url_re l) (\<lambda>(_, _, cap). Some cap) (pos, a # s, None)")
    case (Some x)
    from m_musts [of "\<lambda>(_, _, cap). Some cap" "{}", OF _ Some] Cons.prems show ?thesis
      by (simp add: musts_url_re)
  qed simp
  moreover have "\<not> set l \<subseteq> set s" using Cons.prems by auto
  ultimately show ?case using Cons.IH by simp
qed

lemma search_no_dot:
  assumes "CHR ''.'' \<in> set l" and "list_all idchar v" and "CHR ''.'' \<notin> set rest"
  shows "search False (url_re l) pos (v @ rest) = None"
proof -
  have "CHR ''.'' \<notin> set v" using assms(2) by (auto simp: list_all_iff idchar_def)
  with assms(1,3) have "\<not> set l \<subseteq> set (v @ rest)" by auto
  then show ?thesis by (rule search_musts)
qed

lemmas search_no_dot_unf = search_no_dot [unfolded url_re_def cat.simps]

text \<open>
  The pattern of a shape does not match a URL of a later shape that has no dot after the
  identifier: the search is evaluated over the fixed part of the URL, and ends on the
  identifier and what follows it, where no dot is left.
\<close>

lemma no_match_0_1:
  assumes "sch \<in> {[], ''http://'', ''https://''}" and "w \<in> {[], ''www.''}"
    and "list_all idchar v" and "CHR ''.'' \<notin> set rest"
  shows "regex_match False (url_re ''youtube.com/watch?v='') (sch @ w @ ''youtube.com/embed/'' @ v @ rest) = None"
  using assms
  by (auto simp: regex_match_def url_re_def canonicalize_def search_no_dot_unf)

lemma no_match_0_2:
  assumes "sch \<in> {[], ''http://'', ''https://''}" and "w \<in> {[], ''www.''}"
    and "list_all idchar v" and "CHR ''.'' \<notin> set rest"
  shows "regex_match False (url_re ''youtube.com/watch?v='') (sch @ w @ ''youtube.com/v/'' @ v @ rest) = None"
  using assms
  by (auto simp: regex_match_def url_re_def canonicalize_def search_no_dot_unf)

lemma no_match_1_2:
  assumes "sch \<in> {[], ''http://'', ''https://''}" and "w \<in> {[], ''www.''}"
    and "list_all idchar v" and "CHR ''.'' \<notin> set rest"
  shows "regex_match False (url_re ''youtube.com/embed/'') (sch @ w @ ''youtube.com/v/'' @ v @ rest) = None"
  using assms
  by (auto simp: regex_match_def url_re_def canonicalize_def search_no_dot_unf)

lemma no_match_0_3:
  assumes "sch \<in> {[], ''http://'', ''https://''}" and "w \<in> {[], ''www.''}"
    and "list_all idchar v" and "CHR ''.'' \<notin> set rest"
  shows "regex_match False (url_re ''youtube.com/watch?v='') (sch @ w @ ''youtu.be/'' @ v @ rest) = None"
  using assms
  by (auto simp: regex_match_def url_re_def canonicalize_def search_no_dot_unf)

lemma no_match_1_3:
  assumes "sch \<in> {[], ''http://'', ''https://''}" and "w \<in> {[], ''www.''}"
    and "list_all idchar v" and "CHR ''.'' \<notin> set rest"
  shows "regex_match False (url_re ''youtube.com/embed/'') (sch @ w @ ''youtu.be/'' @ v @ rest) = None"
  using assms
  by (auto simp: regex_match_def url_re_def canonicalize_def search_no_dot_unf)

lemma no_match_2_3:
  assumes "sch \<in> {[], ''http://'', ''https://''}" and "w \<in> {[], ''www.''}"
    and "list_all idchar v" and "CHR ''.'' \<notin> set rest"
  shows "regex_match False (url_re ''youtube.com/v/'') (sch @ w @ ''youtu.be/'' @ v @ rest) = None"
  using assms
  by (auto simp: regex_match_def url_re_def canonicalize_def search_no_dot_unf)

lemma no_match_0_4:
  assumes "sch \<in> {[], ''http://'', ''https://''}" and "w \<in> {[], ''www.''}"
    and "list_all idchar v" and "CHR ''.'' \<notin> set rest"
  shows "regex_match False (url_re ''youtube.com/watch?v='') (sch @ w @ ''youtube.com/shorts/'' @ v @ rest) = None"
  using assms
  by (auto simp: regex_match_def url_re_def canonicalize_def search_no_dot_unf)

lemma no_match_1_4:
  assumes "sch \<in> {[], ''http://'', ''https://''}" and "w \<in> {[], ''www.''}"
    and "list_all idchar v" and "CHR ''.'' \<notin> set rest"
  shows "regex_match False (url_re ''youtube.com/embed/'') (sch @ w @ ''youtube.com/shorts/'' @ v @ rest) = None"
  using assms
  by (auto simp: regex_match_def url_re_def canonicalize_def search_no_dot_unf)

lemma no_match_2_4:
  assumes "sch \<in> {[], ''http://'', ''https://''}" and "w \<in> {[], ''www.''}"
    and "list_all idchar v" and "CHR ''.'' \<notin> set rest"
  shows "regex_match False (url_re ''youtube.com/v/'') (sch @ w @ ''youtube.com/shorts/'' @ v @ rest) = None"
  using assms
  by (auto simp: regex_match_def url_re_def canonicalize_def search_no_dot_unf)

lemma no_match_3_4:
  assumes "sch \<in> {[], ''http://'', ''https://''}" and "w \<in> {[], ''www.''}"
    and "list_all idchar v" and "CHR ''.'' \<notin> set rest"
  shows "regex_match False (url_re ''youtu.be/'') (sch @ w @ ''youtube.com/shorts/'' @ v @ rest) = None"
  using assms
  by (auto simp: regex_match_def url_re_def canonicalize_def search_no_dot_unf)

lemma no_earlier:
  assumes "k < length shapes" and "j < k"
    and "sch \<in> {[], ''http://'', ''https://''}" and "w \<in> {[], ''www.''}"
    and "list_all idchar v" and "CHR ''.'' \<notin> set rest"
  shows "regex_match False (patterns ! j) (sch @ w @ shapes ! k @ v @ rest) = None"
proof -
  from assms(1) have "k = 0 \<or> k = 1 \<or> k = 2 \<or> k = 3 \<or> k = 4"
    by (auto simp: shapes_def)
  moreover have "j = 0 \<or> j = 1 \<or> j = 2 \<or> j = 3" if "k \<le> 4"
    using that assms(2) by auto
  ultimately show ?thesis
    using assms(2) no_match_0_1 [OF assms(3-6)] no_match_0_2 [OF assms(3-6)]
      no_match_1_2 [OF assms(3-6)] no_match_0_3 [OF assms(3-6)] no_match_1_3 [OF assms(3-6)]
      no_match_2_3 [OF assms(3-6)] no_match_0_4 [OF assms(3-6)] no_match_1_4 [OF assms(3-6)]
      no_match_2_4 [OF assms(3-6)] no_match_3_4 [OF assms(3-6)]
    by (auto simp: shapes_def patterns_def)
qed

subsection \<open>The loop over the patterns\<close>

lemma first_capture_first:
  "k < length ps \<Longrightarrow> \<forall>j<k. regex_match False (ps ! j) s = None \<Longrightarrow>
     regex_match False (ps ! k) s = Some (Some c) \<Longrightarrow> c \<noteq> [] \<Longrightarrow> first_capture ps s = Some c"
proof (induction ps arbitrary: k)
  case Nil
  then show ?case by simp
next
  case (Cons p ps)
  show ?case
  proof (cases k)
    case 0
    with Cons.prems show ?thesis by simp
  next
    case (Suc k')
    from Cons.prems(2) Suc have p: "regex_match False p s = None" by auto
    have "\<forall>j<k'. regex_match False (ps ! j) s = None"
      using Cons.prems(2) Suc by auto
    with Cons.IH [of k'] Cons.prems Suc have "first_capture ps s = Some c" by simp
    with p show ?thesis by simp
  qed
qed

lemma first_capture_none:
  "\<forall>p\<in>set ps. regex_match False p s = None \<Longrightarrow> first_capture ps s = None"
  by (induction ps) auto

lemma shape_match:
  assumes "k < length shapes" and "sch \<in> {[], ''http://'', ''https://''}" and "w \<in> {[], ''www.''}"
    and "length v = 11" and "list_all idchar v"
  shows "regex_match False (patterns ! k) (sch @ w @ shapes ! k @ v @ rest) = Some (Some v)"
  using assms match_url [of "shapes ! k" sch w v rest] by (simp add: patterns_def)

lemma shape_not_id:
  assumes "k < length shapes"
  shows "\<not> test False id_re (sch @ w @ shapes ! k @ v @ rest)"
proof -
  from assms have "k = 0 \<or> k = 1 \<or> k = 2 \<or> k = 3 \<or> k = 4"
    by (auto simp: shapes_def)
  then have "\<not> list_all idchar (shapes ! k)"
    by (auto simp: shapes_def idchar_def)
  then show ?thesis by (simp add: test_id_re)
qed

lemma short_none:
  assumes "length s < 11"
  shows "getVideoId s = None"
proof -
  have "\<forall>p\<in>set patterns. regex_match False p s = None"
    using assms by (auto simp: patterns_def regex_match_def search_short)
  then show ?thesis using assms by (simp add: getVideoId_def test_id_re first_capture_none)
qed

lemma first_capture_nonempty: "first_capture ps s = Some c \<Longrightarrow> c \<noteq> []"
  by (induction ps) (auto split: option.splits if_splits)

lemma getVideoId_nonempty: "getVideoId s = Some v \<Longrightarrow> v \<noteq> [] \<and> s \<noteq> []"
  using short_none [of s] first_capture_nonempty [of patterns s v]
  by (auto simp: getVideoId_def test_id_re split: if_splits)

subsection \<open>What a match of a URL pattern is\<close>

text \<open>
  A URL pattern matches a string exactly when the text of its shape occurs in the string
  followed by 11 characters of the class, and the group then holds such 11 characters.
\<close>

lemma lit_sound:
  "lit False l k (pos, s, cap) = Some x \<Longrightarrow>
     \<exists>t. s = l @ t \<and> k (pos + length l, t, cap) = Some x"
proof (induction l arbitrary: pos s)
  case Nil
  then show ?case by simp
next
  case (Cons a l)
  show ?case
  proof (cases s)
    case Nil
    with Cons.prems show ?thesis by simp
  next
    case (Cons b t)
    with Cons.prems have ab: "b = a" and "lit False l k (Suc pos, t, cap) = Some x"
      by (auto simp: canonicalize_def split: if_splits)
    from Cons.IH [OF this(2)] obtain t' where "t = l @ t'" "k (Suc pos + length l, t', cap) = Some x"
      by blast
    with ab Cons show ?thesis by simp
  qed
qed

lemma opt_cases:
  "m ci (Opt r) k st = Some x \<Longrightarrow> m ci r k st = Some x \<or> k st = Some x"
  by (simp split: option.splits)

lemma id_group_sound:
  assumes "m False (Grp (Rep idchar 11)) (\<lambda>(_, _, cap). Some cap) (pos, s, cap) = Some x"
  shows "\<exists>v b. s = v @ b \<and> length v = 11 \<and> list_all idchar v \<and> x = Some v"
proof -
  from assms have "11 \<le> length s" "list_all idchar (take 11 s)" "x = Some (take 11 s)"
    by (auto simp: rep_eq split: if_splits)
  moreover have "s = take 11 s @ drop 11 s" by simp
  ultimately show ?thesis by (metis length_take min.absorb2)
qed

lemma m_seq: "m ci (Seq a b) k = m ci a (m ci b k)"
  by (rule ext) simp

lemma m_lit: "m ci (Lit l) k = lit ci l k"
  by (rule ext) simp

lemma m_url_sound:
  assumes "m False (url_re l) (\<lambda>(_, _, cap). Some cap) (pos, s, cap) = Some x"
  shows "\<exists>a v b. s = a @ l @ v @ b \<and> length v = 11 \<and> list_all idchar v \<and> x = Some v"
proof -
  let ?K = "\<lambda>(_ :: nat, _ :: string, cap :: string option). Some cap"
  let ?K3 = "m False (Grp (Rep idchar 11)) ?K"
  let ?K2 = "lit False l ?K3"
  let ?K1 = "m False (Opt (Lit ''www.'')) ?K2"
  let ?K0 = "lit False ''://'' ?K1"
  let ?KS = "m False (Opt (Lit ''s'')) ?K0"
  let ?goal = "\<lambda>t. \<exists>a v b. t = a @ l @ v @ b \<and> length v = 11 \<and> list_all idchar v \<and> x = Some v"
  have f2: "?goal t" if "?K2 (p, t, c) = Some x" for p t c
  proof -
    from lit_sound [OF that] obtain t' where t': "t = l @ t'"
      "?K3 (p + length l, t', c) = Some x" by blast
    from id_group_sound [OF t'(2)] obtain v b where "t' = v @ b" "length v = 11"
      "list_all idchar v" "x = Some v" by blast
    with t'(1) have "t = [] @ l @ v @ b" by simp
    with \<open>length v = 11\<close> \<open>list_all idchar v\<close> \<open>x = Some v\<close> show ?thesis by blast
  qed
  have f1: "?goal t" if "?K1 (p, t, c) = Some x" for p t c
  proof -
    from opt_cases [OF that] show ?thesis
    proof
      assume "m False (Lit ''www.'') ?K2 (p, t, c) = Some x"
      then have "lit False ''www.'' ?K2 (p, t, c) = Some x" by (simp only: m_lit)
      from lit_sound [OF this] obtain t' where t': "t = ''www.'' @ t'"
        "?K2 (p + length ''www.'', t', c) = Some x" by blast
      from f2 [OF t'(2)] obtain a v b where "t' = a @ l @ v @ b" "length v = 11"
        "list_all idchar v" "x = Some v" by blast
      with t'(1) have "t = (''www.'' @ a) @ l @ v @ b" by simp
      with \<open>length v = 11\<close> \<open>list_all idchar v\<close> \<open>x = Some v\<close> show ?thesis by blast
    next
      assume "?K2 (p, t, c) = Some x"
      from f2 [OF this] show ?thesis .
    qed
  qed
  have f0: "?goal t" if "?K0 (p, t, c) = Some x" for p t c
  proof -
    from lit_sound [OF that] obtain t' where t': "t = ''://'' @ t'"
      "?K1 (p + length ''://'', t', c) = Some x" by blast
    from f1 [OF t'(2)] obtain a v b where "t' = a @ l @ v @ b" "length v = 11"
      "list_all idchar v" "x = Some v" by blast
    with t'(1) have "t = (''://'' @ a) @ l @ v @ b" by simp
    with \<open>length v = 11\<close> \<open>list_all idchar v\<close> \<open>x = Some v\<close> show ?thesis by blast
  qed
  have fs: "?goal t" if "?KS (p, t, c) = Some x" for p t c
  proof -
    from opt_cases [OF that] show ?thesis
    proof
      assume "m False (Lit ''s'') ?K0 (p, t, c) = Some x"
      then have "lit False ''s'' ?K0 (p, t, c) = Some x" by (simp only: m_lit)
      from lit_sound [OF this] obtain t' where t': "t = ''s'' @ t'"
        "?K0 (p + length ''s'', t', c) = Some x" by blast
      from f0 [OF t'(2)] obtain a v b where "t' = a @ l @ v @ b" "length v = 11"
        "list_all idchar v" "x = Some v" by blast
      with t'(1) have "t = (''s'' @ a) @ l @ v @ b" by simp
      with \<open>length v = 11\<close> \<open>list_all idchar v\<close> \<open>x = Some v\<close> show ?thesis by blast
    next
      assume "?K0 (p, t, c) = Some x"
      from f0 [OF this] show ?thesis .
    qed
  qed
  from assms have "m False (Opt (Seq (Lit ''http'') (Seq (Opt (Lit ''s'')) (Lit ''://'')))) ?K1
      (pos, s, cap) = Some x"
    by (simp only: url_re_def cat.simps m_seq m_lit)
  from opt_cases [OF this] show ?thesis
  proof
    assume "m False (Seq (Lit ''http'') (Seq (Opt (Lit ''s'')) (Lit ''://''))) ?K1 (pos, s, cap) = Some x"
    then have "lit False ''http'' ?KS (pos, s, cap) = Some x" by (simp only: m_seq m_lit)
    from lit_sound [OF this] obtain t' where t': "s = ''http'' @ t'"
      "?KS (pos + length ''http'', t', cap) = Some x" by blast
    from fs [OF t'(2)] obtain a v b where "t' = a @ l @ v @ b" "length v = 11"
      "list_all idchar v" "x = Some v" by blast
    with t'(1) have "s = (''http'' @ a) @ l @ v @ b" by simp
    with \<open>length v = 11\<close> \<open>list_all idchar v\<close> \<open>x = Some v\<close> show ?thesis by blast
  next
    assume "?K1 (pos, s, cap) = Some x"
    from f1 [OF this] show ?thesis .
  qed
qed

lemma search_sound:
  "search False (url_re l) pos s = Some x \<Longrightarrow> \<exists>c. x = Some c \<and> spec_occurs l s c"
proof (induction s arbitrary: pos)
  case Nil
  then have "m False (url_re l) (\<lambda>(_, _, cap). Some cap) (pos, [], None) = Some x" by simp
  from m_url_sound [OF this] show ?case by (auto simp: spec_occurs_def)
next
  case (Cons y s)
  show ?case
  proof (cases "m False (url_re l) (\<lambda>(_, _, cap). Some cap) (pos, y # s, None)")
    case None
    with Cons.prems have "search False (url_re l) (Suc pos) s = Some x" by simp
    from Cons.IH [OF this] obtain c a b where "x = Some c" "s = a @ l @ c @ b" "length c = 11"
      "list_all idchar c" by (auto simp: spec_occurs_def)
    then have "y # s = (y # a) @ l @ c @ b" by simp
    with \<open>x = Some c\<close> \<open>length c = 11\<close> \<open>list_all idchar c\<close> show ?thesis
      unfolding spec_occurs_def by blast
  next
    case (Some z)
    with Cons.prems have "z = x" by simp
    with Some m_url_sound [of l pos "y # s" None x] show ?thesis
      unfolding spec_occurs_def by blast
  qed
qed

lemma search_append:
  "m ci r (\<lambda>(_, _, cap). Some cap) (pos + length a, t, None) \<noteq> None \<Longrightarrow>
     search ci r pos (a @ t) \<noteq> None"
proof (induction a arbitrary: pos)
  case Nil
  then show ?case by (cases t) auto
next
  case (Cons y a)
  from Cons.prems have "m ci r (\<lambda>(_, _, cap). Some cap) (Suc pos + length a, t, None) \<noteq> None"
    by simp
  from Cons.IH [OF this] show ?case by (simp split: option.splits)
qed

lemma m_url_at:
  assumes "l \<in> set shapes" and "length v = 11" and "list_all idchar v"
  shows "m False (url_re l) (\<lambda>(_, _, cap). Some cap) (p, l @ v @ b, None) = Some (Some v)"
  using assms by (auto simp: shapes_def url_re_def rep_eq canonicalize_def)

lemma match_none_iff:
  assumes "l \<in> set shapes"
  shows "regex_match False (url_re l) s = None \<longleftrightarrow> \<not> (\<exists>c. spec_occurs l s c)"
proof
  assume n: "regex_match False (url_re l) s = None"
  show "\<not> (\<exists>c. spec_occurs l s c)"
  proof
    assume "\<exists>c. spec_occurs l s c"
    then obtain a c b where s: "s = a @ l @ c @ b" "length c = 11" "list_all idchar c"
      by (auto simp: spec_occurs_def)
    have "m False (url_re l) (\<lambda>(_, _, cap). Some cap) (0 + length a, l @ c @ b, None) \<noteq> None"
      using m_url_at [OF assms s(2,3)] by simp
    from search_append [OF this] s(1) n show False by (simp add: regex_match_def)
  qed
next
  assume "\<not> (\<exists>c. spec_occurs l s c)"
  then show "regex_match False (url_re l) s = None"
    using search_sound [of l 0 s] by (cases "regex_match False (url_re l) s") (auto simp: regex_match_def)
qed

lemma match_some:
  assumes "regex_match False (url_re l) s = Some x"
  shows "\<exists>c. x = Some c \<and> c \<noteq> [] \<and> spec_occurs l s c"
proof -
  from assms search_sound [of l 0 s x] obtain c where c: "x = Some c" "spec_occurs l s c"
    by (auto simp: regex_match_def)
  then have "length c = 11" by (auto simp: spec_occurs_def)
  then have "c \<noteq> []" by auto
  with c show ?thesis by blast
qed


text \<open>
  The loop in the words of the specification: the result comes from the first shape of
  the list that occurs in the string.
\<close>

lemma first_capture_step:
  assumes "l \<in> set shapes"
  shows "if \<exists>c. spec_occurs l s c
         then \<exists>c. first_capture (url_re l # ps) s = Some c \<and> spec_occurs l s c
         else first_capture (url_re l # ps) s = first_capture ps s"
proof (cases "regex_match False (url_re l) s")
  case None
  with match_none_iff [OF assms, of s] show ?thesis by simp
next
  case (Some x)
  from match_some [OF this] obtain c where "x = Some c" "c \<noteq> []" "spec_occurs l s c" by blast
  with Some show ?thesis by auto
qed

lemma getVideoId_priority:
  assumes "length s \<noteq> 11 \<or> \<not> list_all idchar s"
  shows
    "if \<exists>c. spec_occurs ''youtube.com/watch?v='' s c
     then \<exists>c. getVideoId s = Some c \<and> spec_occurs ''youtube.com/watch?v='' s c
     else if \<exists>c. spec_occurs ''youtube.com/embed/'' s c
     then \<exists>c. getVideoId s = Some c \<and> spec_occurs ''youtube.com/embed/'' s c
     else if \<exists>c. spec_occurs ''youtube.com/v/'' s c
     then \<exists>c. getVideoId s = Some c \<and> spec_occurs ''youtube.com/v/'' s c
     else if \<exists>c. spec_occurs ''youtu.be/'' s c
     then \<exists>c. getVideoId s = Some c \<and> spec_occurs ''youtu.be/'' s c
     else if \<exists>c. spec_occurs ''youtube.com/shorts/'' s c
     then \<exists>c. getVideoId s = Some c \<and> spec_occurs ''youtube.com/shorts/'' s c
     else getVideoId s = None"
proof -
  let ?l1 = "''youtube.com/watch?v=''" and ?l2 = "''youtube.com/embed/''"
    and ?l3 = "''youtube.com/v/''" and ?l4 = "''youtu.be/''" and ?l5 = "''youtube.com/shorts/''"
  have g: "getVideoId s =
      first_capture [url_re ?l1, url_re ?l2, url_re ?l3, url_re ?l4, url_re ?l5] s"
    using assms by (auto simp: getVideoId_def test_id_re patterns_def shapes_def)
  have s1: "?l1 \<in> set shapes" and s2: "?l2 \<in> set shapes" and s3: "?l3 \<in> set shapes"
    and s4: "?l4 \<in> set shapes" and s5: "?l5 \<in> set shapes"
    by (simp_all add: shapes_def)
  note st = first_capture_step [OF s1, of s "[url_re ?l2, url_re ?l3, url_re ?l4, url_re ?l5]"]
    first_capture_step [OF s2, of s "[url_re ?l3, url_re ?l4, url_re ?l5]"]
    first_capture_step [OF s3, of s "[url_re ?l4, url_re ?l5]"]
    first_capture_step [OF s4, of s "[url_re ?l5]"]
    first_capture_step [OF s5, of s "[]"]
  show ?thesis
  proof (cases "\<exists>c. spec_occurs ?l1 s c")
    case True
    with st(1) g show ?thesis by simp
  next
    case n1: False
    with st(1) have e1: "getVideoId s = first_capture [url_re ?l2, url_re ?l3, url_re ?l4, url_re ?l5] s"
      by (simp add: g)
    show ?thesis
    proof (cases "\<exists>c. spec_occurs ?l2 s c")
      case True
      with st(2) e1 n1 show ?thesis by simp
    next
      case n2: False
      with st(2) e1 have e2: "getVideoId s = first_capture [url_re ?l3, url_re ?l4, url_re ?l5] s"
        by simp
      show ?thesis
      proof (cases "\<exists>c. spec_occurs ?l3 s c")
        case True
        with st(3) e2 n1 n2 show ?thesis by simp
      next
        case n3: False
        with st(3) e2 have e3: "getVideoId s = first_capture [url_re ?l4, url_re ?l5] s"
          by simp
        show ?thesis
        proof (cases "\<exists>c. spec_occurs ?l4 s c")
          case True
          with st(4) e3 n1 n2 n3 show ?thesis by simp
        next
          case n4: False
          with st(4) e3 have e4: "getVideoId s = first_capture [url_re ?l5] s"
            by simp
          show ?thesis
          proof (cases "\<exists>c. spec_occurs ?l5 s c")
            case True
            with st(5) e4 n1 n2 n3 n4 show ?thesis by simp
          next
            case n5: False
            with st(5) e4 have "getVideoId s = None" by simp
            with n1 n2 n3 n4 n5 show ?thesis by simp
          qed
        qed
      qed
    qed
  qed
qed


lemma occurs_len: "spec_occurs l s c \<Longrightarrow> length l + 11 \<le> length s"
  by (auto simp: spec_occurs_def)

lemma shape_url:
  assumes "k < length shapes" and "sch \<in> {[], ''http://'', ''https://''}" and "w \<in> {[], ''www.''}"
    and "length v = 11" and "list_all idchar v"
    and "\<forall>j<k. \<not> (\<exists>c. spec_occurs (shapes ! j) (sch @ w @ shapes ! k @ v @ rest) c)"
  shows "getVideoId (sch @ w @ shapes ! k @ v @ rest) = Some v"
proof -
  let ?u = "sch @ w @ shapes ! k @ v @ rest"
  have "\<forall>j<k. regex_match False (patterns ! j) ?u = None"
  proof (intro allI impI)
    fix j assume j: "j < k"
    with assms(1) have "shapes ! j \<in> set shapes" by simp
    from match_none_iff [OF this, of ?u] assms(6) j assms(1)
    show "regex_match False (patterns ! j) ?u = None" by (simp add: patterns_def)
  qed
  moreover from assms(4) have "v \<noteq> []" by auto
  ultimately have "first_capture patterns ?u = Some v"
    using first_capture_first [of k patterns ?u v] shape_match [OF assms(1-5), of rest] assms(1)
    by (simp add: patterns_def)
  with shape_not_id [OF assms(1)] show ?thesis by (simp add: getVideoId_def)
qed

lemma shape_url_no_dot:
  assumes "k < length shapes" and "sch \<in> {[], ''http://'', ''https://''}" and "w \<in> {[], ''www.''}"
    and "length v = 11" and "list_all idchar v" and "CHR ''.'' \<notin> set rest"
  shows "getVideoId (sch @ w @ shapes ! k @ v @ rest) = Some v"
proof -
  let ?u = "sch @ w @ shapes ! k @ v @ rest"
  have "\<forall>j<k. \<not> (\<exists>c. spec_occurs (shapes ! j) ?u c)"
  proof (intro allI impI)
    fix j assume j: "j < k"
    with assms(1) have "shapes ! j \<in> set shapes" by simp
    from match_none_iff [OF this, of ?u] no_earlier [OF assms(1) j assms(2,3,5,6)] j assms(1)
    show "\<not> (\<exists>c. spec_occurs (shapes ! j) ?u c)" by (simp add: patterns_def)
  qed
  from shape_url [OF assms(1-5) this] show ?thesis .
qed

text \<open>
  Claim C7. For every string \<open>s\<close> of exactly 11 characters, each a letter, a digit, a
  hyphen or an underscore, \<open>getVideoId s\<close> returns \<open>s\<close> itself.
\<close>

theorem getVideoId_id:
  "length s = 11 \<Longrightarrow> list_all idchar s \<Longrightarrow> getVideoId s = Some s"
  by (simp add: getVideoId_def test_id_re)

theorem getVideoId_id_witness:
  "length ''dQw4w9WgXcQ'' = 11 \<and> list_all idchar ''dQw4w9WgXcQ'' \<and>
   getVideoId ''dQw4w9WgXcQ'' = Some ''dQw4w9WgXcQ''"
  using getVideoId_id [of "''dQw4w9WgXcQ''"] by (simp add: idchar_def)

text \<open>
  Claim C8. The five shapes are the texts \<open>youtube.com/watch?v=\<close>,
  \<open>youtube.com/embed/\<close>, \<open>youtube.com/v/\<close>, \<open>youtu.be/\<close> and
  \<open>youtube.com/shorts/\<close>, tried in this order. With the scheme \<open>http://\<close>,
  \<open>https://\<close> or none, and with or without \<open>www.\<close>, a URL of a shape that embeds an
  11-character identifier \<open>v\<close> resolves to \<open>v\<close>: for the first shape whatever text
  \<open>rest\<close> follows the identifier, for the four others when \<open>rest\<close> has no dot (so also
  when the URL ends with the identifier), and for any \<open>rest\<close> when no shape earlier in the
  order occurs in the URL. For every string that is no bare identifier, the result comes
  from the first shape of the order that occurs in the string, followed by 11 characters
  of an identifier, and is \<open>null\<close> when none of the five occurs. The order is shown on
  five URLs that hold two shapes each: the identifier after the shape earlier in the order
  is returned, though it stands later in the text. Every string shorter than 11 characters
  resolves to \<open>null\<close>, and so does a string with a disallowed character in which none of
  the five shapes occurs.
\<close>

theorem getVideoId_shapes:
  "(sch \<in> {[], ''http://'', ''https://''} \<and> w \<in> {[], ''www.''} \<and>
    length v = 11 \<and> list_all idchar v \<longrightarrow>
      getVideoId (sch @ w @ ''youtube.com/watch?v='' @ v @ rest) = Some v \<and>
      (CHR ''.'' \<notin> set rest \<longrightarrow>
         getVideoId (sch @ w @ ''youtube.com/embed/'' @ v @ rest) = Some v \<and>
         getVideoId (sch @ w @ ''youtube.com/v/'' @ v @ rest) = Some v \<and>
         getVideoId (sch @ w @ ''youtu.be/'' @ v @ rest) = Some v \<and>
         getVideoId (sch @ w @ ''youtube.com/shorts/'' @ v @ rest) = Some v) \<and>
      (k < 5 \<and>
       (\<forall>j<k. \<not> (\<exists>c. spec_occurs
           ([''youtube.com/watch?v='', ''youtube.com/embed/'', ''youtube.com/v/'', ''youtu.be/'',
             ''youtube.com/shorts/''] ! j)
           (sch @ w @
            [''youtube.com/watch?v='', ''youtube.com/embed/'', ''youtube.com/v/'', ''youtu.be/'',
             ''youtube.com/shorts/''] ! k @ v @ rest) c)) \<longrightarrow>
         getVideoId
           (sch @ w @
            [''youtube.com/watch?v='', ''youtube.com/embed/'', ''youtube.com/v/'', ''youtu.be/'',
             ''youtube.com/shorts/''] ! k @ v @ rest) = Some v)) \<and>
   (length s \<noteq> 11 \<or> \<not> list_all idchar s \<longrightarrow>
      (if \<exists>c. spec_occurs ''youtube.com/watch?v='' s c
       then \<exists>c. getVideoId s = Some c \<and> spec_occurs ''youtube.com/watch?v='' s c
       else if \<exists>c. spec_occurs ''youtube.com/embed/'' s c
       then \<exists>c. getVideoId s = Some c \<and> spec_occurs ''youtube.com/embed/'' s c
       else if \<exists>c. spec_occurs ''youtube.com/v/'' s c
       then \<exists>c. getVideoId s = Some c \<and> spec_occurs ''youtube.com/v/'' s c
       else if \<exists>c. spec_occurs ''youtu.be/'' s c
       then \<exists>c. getVideoId s = Some c \<and> spec_occurs ''youtu.be/'' s c
       else if \<exists>c. spec_occurs ''youtube.com/shorts/'' s c
       then \<exists>c. getVideoId s = Some c \<and> spec_occurs ''youtube.com/shorts/'' s c
       else getVideoId s = None)) \<and>
   getVideoId ''youtube.com/embed/AAAAAAAAAAA?u=youtube.com/watch?v=BBBBBBBBBBB'' =
     Some ''BBBBBBBBBBB'' \<and>
   getVideoId ''youtube.com/v/AAAAAAAAAAA?u=youtube.com/embed/BBBBBBBBBBB'' =
     Some ''BBBBBBBBBBB'' \<and>
   getVideoId ''youtu.be/AAAAAAAAAAA?u=youtube.com/v/BBBBBBBBBBB'' = Some ''BBBBBBBBBBB'' \<and>
   getVideoId ''youtube.com/shorts/AAAAAAAAAAA?u=youtu.be/BBBBBBBBBBB'' =
     Some ''BBBBBBBBBBB'' \<and>
   getVideoId ''youtu.be/AAAAAAAAAAA?x=youtube.com/watch?v=BBBBBBBBBBB'' =
     Some ''BBBBBBBBBBB'' \<and>
   (length s < 11 \<longrightarrow> getVideoId s = None) \<and>
   ((\<exists>x\<in>set s. \<not> idchar x) \<and>
    \<not> (\<exists>c. spec_occurs ''youtube.com/watch?v='' s c) \<and>
    \<not> (\<exists>c. spec_occurs ''youtube.com/embed/'' s c) \<and>
    \<not> (\<exists>c. spec_occurs ''youtube.com/v/'' s c) \<and>
    \<not> (\<exists>c. spec_occurs ''youtu.be/'' s c) \<and>
    \<not> (\<exists>c. spec_occurs ''youtube.com/shorts/'' s c) \<longrightarrow>
      getVideoId s = None)"
proof -
  have five: "[''youtube.com/watch?v='', ''youtube.com/embed/'', ''youtube.com/v/'', ''youtu.be/'',
      ''youtube.com/shorts/''] = shapes"
    by (simp add: shapes_def)
  have len: "length shapes = 5" by (simp add: shapes_def)
  have urls: "getVideoId (sch @ w @ ''youtube.com/watch?v='' @ v @ rest) = Some v \<and>
      (CHR ''.'' \<notin> set rest \<longrightarrow>
         getVideoId (sch @ w @ ''youtube.com/embed/'' @ v @ rest) = Some v \<and>
         getVideoId (sch @ w @ ''youtube.com/v/'' @ v @ rest) = Some v \<and>
         getVideoId (sch @ w @ ''youtu.be/'' @ v @ rest) = Some v \<and>
         getVideoId (sch @ w @ ''youtube.com/shorts/'' @ v @ rest) = Some v)"
    if h: "sch \<in> {[], ''http://'', ''https://''}" "w \<in> {[], ''www.''}"
      "length v = 11" "list_all idchar v"
  proof -
    have "getVideoId (sch @ w @ shapes ! 0 @ v @ rest) = Some v"
      using shape_url [of 0 sch w v rest] h len by simp
    moreover have "getVideoId (sch @ w @ shapes ! 1 @ v @ rest) = Some v"
      "getVideoId (sch @ w @ shapes ! 2 @ v @ rest) = Some v"
      "getVideoId (sch @ w @ shapes ! 3 @ v @ rest) = Some v"
      "getVideoId (sch @ w @ shapes ! 4 @ v @ rest) = Some v"
      if "CHR ''.'' \<notin> set rest"
      using shape_url_no_dot [of 1 sch w v rest] shape_url_no_dot [of 2 sch w v rest]
        shape_url_no_dot [of 3 sch w v rest] shape_url_no_dot [of 4 sch w v rest] h len that
      by simp_all
    ultimately show ?thesis by (simp add: shapes_def)
  qed
  have cond: "getVideoId (sch @ w @ shapes ! k @ v @ rest) = Some v"
    if "sch \<in> {[], ''http://'', ''https://''}" "w \<in> {[], ''www.''}"
      "length v = 11" "list_all idchar v" "k < 5"
      "\<forall>j<k. \<not> (\<exists>c. spec_occurs (shapes ! j) (sch @ w @ shapes ! k @ v @ rest) c)"
    using shape_url [of k sch w v rest] that len by simp
  have inst:
    "getVideoId ''youtube.com/embed/AAAAAAAAAAA?u=youtube.com/watch?v=BBBBBBBBBBB'' =
       Some ''BBBBBBBBBBB''"
    "getVideoId ''youtube.com/v/AAAAAAAAAAA?u=youtube.com/embed/BBBBBBBBBBB'' =
       Some ''BBBBBBBBBBB''"
    "getVideoId ''youtu.be/AAAAAAAAAAA?u=youtube.com/v/BBBBBBBBBBB'' = Some ''BBBBBBBBBBB''"
    "getVideoId ''youtube.com/shorts/AAAAAAAAAAA?u=youtu.be/BBBBBBBBBBB'' =
       Some ''BBBBBBBBBBB''"
    "getVideoId ''youtu.be/AAAAAAAAAAA?x=youtube.com/watch?v=BBBBBBBBBBB'' =
       Some ''BBBBBBBBBBB''"
    by code_simp+
  have bad: "length s \<noteq> 11 \<or> \<not> list_all idchar s" if "\<exists>x\<in>set s. \<not> idchar x"
    using that by (auto simp: list_all_iff)
  have none: "getVideoId s = None"
    if "\<exists>x\<in>set s. \<not> idchar x"
      "\<not> (\<exists>c. spec_occurs ''youtube.com/watch?v='' s c)"
      "\<not> (\<exists>c. spec_occurs ''youtube.com/embed/'' s c)"
      "\<not> (\<exists>c. spec_occurs ''youtube.com/v/'' s c)"
      "\<not> (\<exists>c. spec_occurs ''youtu.be/'' s c)"
      "\<not> (\<exists>c. spec_occurs ''youtube.com/shorts/'' s c)"
    using getVideoId_priority [OF bad [OF that(1)]] that(2-6) by simp
  show ?thesis
    unfolding five
    using urls cond getVideoId_priority [of s] inst short_none [of s] none
    by blast
qed


theorem getVideoId_shapes_witness:
  "getVideoId ''https://www.youtube.com/watch?v=dQw4w9WgXcQ&t=10'' = Some ''dQw4w9WgXcQ'' \<and>
   getVideoId ''https://www.youtube.com/shorts/dQw4w9WgXcQ&t=10'' = Some ''dQw4w9WgXcQ'' \<and>
   getVideoId ''http://youtu.be/dQw4w9WgXcQ'' = Some ''dQw4w9WgXcQ'' \<and>
   getVideoId ''a b'' = None"
proof -
  have v: "length ''dQw4w9WgXcQ'' = 11" "list_all idchar ''dQw4w9WgXcQ''"
    by (simp_all add: idchar_def)
  have nd: "CHR ''.'' \<notin> set ''&t=10''" "CHR ''.'' \<notin> set []" by simp_all
  have bad: "\<exists>x\<in>set ''a b''. \<not> idchar x" by (simp add: idchar_def)
  have no: "\<not> (\<exists>c. spec_occurs l ''a b'' c)" for l
    using occurs_len [of l "''a b''"] by auto
  have short: "length ''a b'' < 11" by simp
  from getVideoId_shapes [of "''https://''" "''www.''" "''dQw4w9WgXcQ''" "''&t=10''" 4 "''a b''"]
    v nd(1) bad no short
  have a: "getVideoId ''https://www.youtube.com/watch?v=dQw4w9WgXcQ&t=10'' = Some ''dQw4w9WgXcQ''"
    "getVideoId ''https://www.youtube.com/shorts/dQw4w9WgXcQ&t=10'' = Some ''dQw4w9WgXcQ''"
    "getVideoId ''a b'' = None"
    by simp_all
  from getVideoId_shapes [of "''http://''" "[]" "''dQw4w9WgXcQ''" "[]" 3 "''a b''"] v nd(2)
  have "getVideoId ''http://youtu.be/dQw4w9WgXcQ'' = Some ''dQw4w9WgXcQ''"
    by simp
  with a show ?thesis by simp
qed

section \<open>Properties of the page mappings\<close>

text \<open>
  \<open>map\<close> with a callback that throws on no element keeps the length and the order.
\<close>

lemma map_js_Inr:
  "(\<forall>x\<in>set xs. \<exists>y. f x = Inr y) \<Longrightarrow>
     \<exists>ys. map_js f xs = Inr ys \<and> length ys = length xs \<and> (\<forall>i<length xs. f (xs ! i) = Inr (ys ! i))"
proof (induction xs)
  case Nil
  then show ?case by simp
next
  case (Cons x xs)
  then obtain y where y: "f x = Inr y" by auto
  from Cons obtain ys where ys: "map_js f xs = Inr ys" "length ys = length xs"
    "\<forall>i<length xs. f (xs ! i) = Inr (ys ! i)" by auto
  have "\<forall>i<length (x # xs). f ((x # xs) ! i) = Inr ((y # ys) ! i)"
    using y ys(3) by (auto simp: nth_Cons split: nat.splits)
  with y ys show ?case by simp
qed

lemma slice_take: "0 \<le> n \<Longrightarrow> slice 0 n xs = take (nat n) xs"
  by (auto simp: slice_def Let_def min_def)

lemma ToInteger_nonneg: "0 \<le> x \<Longrightarrow> ToIntegerOrInfinity x = \<lfloor>x\<rfloor>"
  by (simp add: ToIntegerOrInfinity_def)

text \<open>The count of a page is the length of its list, on every path that returns a page.\<close>

lemma commentsPageOf_count:
  "commentsPageOf data v l = Inr p \<Longrightarrow> page_commentCount p = length (comments p)"
  by (auto simp: commentsPageOf_def Let_def split: if_splits jsval.splits sum.splits)

lemma repliesPageOf_count:
  "repliesPageOf data = Inr p \<Longrightarrow> replyCount p = length (page_replies p)"
  by (auto simp: repliesPageOf_def Let_def split: if_splits jsval.splits sum.splits)

lemma fetchCommentsPage_count:
  "fetchCommentsPage e reqs tok v l = (rs, Inr p) \<Longrightarrow> page_commentCount p = length (comments p)"
  by (auto simp: fetchCommentsPage_def Let_def commentsPageOf_count
      split: fetch_result.splits if_splits option.splits)

lemma getCommentsData_count:
  "getCommentsData e p = (rs, Inr pg) \<Longrightarrow> page_commentCount pg = length (comments pg)"
  by (auto simp: getCommentsData_def Let_def fetchCommentsPage_count
      split: if_splits option.splits prod.splits sum.splits)

lemma getRepliesData_count:
  "getRepliesData e t = (rs, Inr pg) \<Longrightarrow> replyCount pg = length (page_replies pg)"
  by (auto simp: getRepliesData_def Let_def repliesPageOf_count
      split: fetch_result.splits if_splits option.splits)

text \<open>
  Claim C3, as amended. For an upstream response \<open>data\<close> whose \<open>comments\<close> property is an
  array of \<open>n\<close> entries, a limit \<open>l \<ge> 0\<close> and no \<open>null\<close> among the entries kept, the
  comments-page mapping returns exactly \<open>min n \<lfloor>l\<rfloor>\<close> comments, and the comment at each
  index is the mapping of the upstream entry at that index. The claim as written holds for
  no negative limit: \<open>slice(0, limit)\<close> then drops entries from the end of the array, as
  the last theorem of this block shows for three entries and the limit \<open>-1\<close>, where two
  comments are returned.
\<close>

theorem commentsPageOf_truncates:
  assumes "\<not> nullish data" and "read_prop data ''comments'' = JArr cs" and "0 \<le> l"
    and "\<forall>c\<in>set (take (nat \<lfloor>l\<rfloor>) cs). \<not> nullish c"
  shows "\<exists>p. commentsPageOf data v l = Inr p \<and>
           length (comments p) = min (length cs) (nat \<lfloor>l\<rfloor>) \<and>
           (\<forall>i<length (comments p). mapComment (cs ! i) = Inr (comments p ! i))"
proof -
  let ?xs = "take (nat \<lfloor>l\<rfloor>) cs"
  have sl: "slice 0 (ToIntegerOrInfinity l) cs = ?xs"
    using assms(3) by (simp add: ToInteger_nonneg slice_take)
  have "\<forall>c\<in>set ?xs. \<exists>y. mapComment c = Inr y"
    using assms(4) by (simp add: mapComment_def)
  from map_js_Inr [OF this] obtain ys where ys: "map_js mapComment ?xs = Inr ys"
    "length ys = length ?xs" "\<forall>i<length ?xs. mapComment (?xs ! i) = Inr (ys ! i)" by blast
  have "\<forall>i<length ys. mapComment (cs ! i) = Inr (ys ! i)"
    using ys(2,3) by simp
  then show ?thesis
    using assms(1,2) sl ys(1,2) by (simp add: commentsPageOf_def Let_def)
qed

theorem commentsPageOf_truncates_witness:
  "commentsPageOf
     (JObj [(''comments'', JArr [JObj [(''content'', JStr ''a'')],
                                 JObj [(''content'', JStr ''b'')],
                                 JObj [(''content'', JStr ''c'')]])]) ''abc12345678'' 2 =
   Inr \<lparr>page_videoId = JStr ''abc12345678'', videoTitle = JUndefined,
        comments = [\<lparr>commentId = JStr [], author = JStr ''Anonymous'', comment_text = JStr ''a'',
                      time = JStr [], likes = JNum 0, replies = JNum 0, repliesToken = JNull\<rparr>,
                    \<lparr>commentId = JStr [], author = JStr ''Anonymous'', comment_text = JStr ''b'',
                      time = JStr [], likes = JNum 0, replies = JNum 0, repliesToken = JNull\<rparr>],
        page_commentCount = 2, nextPageToken = JUndefined\<rparr>"
  using commentsPageOf_truncates [of
    "JObj [(''comments'', JArr [JObj [(''content'', JStr ''a'')],
                                 JObj [(''content'', JStr ''b'')],
                                 JObj [(''content'', JStr ''c'')]])]"
    "[JObj [(''content'', JStr ''a'')], JObj [(''content'', JStr ''b'')],
      JObj [(''content'', JStr ''c'')]]" 2 "''abc12345678''"]
  by (simp add: commentsPageOf_def Let_def slice_def ToIntegerOrInfinity_def mapComment_def
      or_js_def opt_read_def)

theorem commentsPageOf_negative_limit:
  "commentsPageOf
     (JObj [(''comments'', JArr [JObj [(''content'', JStr ''a'')],
                                 JObj [(''content'', JStr ''b'')],
                                 JObj [(''content'', JStr ''c'')]])]) ''abc12345678'' (- 1) =
   Inr \<lparr>page_videoId = JStr ''abc12345678'', videoTitle = JUndefined,
        comments = [\<lparr>commentId = JStr [], author = JStr ''Anonymous'', comment_text = JStr ''a'',
                      time = JStr [], likes = JNum 0, replies = JNum 0, repliesToken = JNull\<rparr>,
                    \<lparr>commentId = JStr [], author = JStr ''Anonymous'', comment_text = JStr ''b'',
                      time = JStr [], likes = JNum 0, replies = JNum 0, repliesToken = JNull\<rparr>],
        page_commentCount = 2, nextPageToken = JUndefined\<rparr> \<and>
   (2::real) \<noteq> min 3 (- 1)"
  by (simp add: commentsPageOf_def Let_def slice_def ToIntegerOrInfinity_def mapComment_def
      or_js_def opt_read_def ceiling_def)

text \<open>
  Claim C4. For every upstream comment entry (a value other than \<open>null\<close>), the mapping
  succeeds; when \<open>channel?.name\<close> reads as undefined the author is \<open>"Anonymous"\<close>, when
  \<open>content\<close> is absent the text is the empty string, when \<open>extracted_vote_count\<close> is
  absent the likes are \<open>0\<close>, when \<open>replies_next_page_token\<close> is absent the replies token
  is \<open>null\<close>, and the replies token is never undefined.
\<close>

theorem mapComment_defaults:
  assumes "\<not> nullish c"
  shows "\<exists>cm. mapComment c = Inr cm \<and>
     (opt_read (read_prop c ''channel'') ''name'' = JUndefined \<longrightarrow> author cm = JStr ''Anonymous'') \<and>
     (read_prop c ''content'' = JUndefined \<longrightarrow> comment_text cm = JStr []) \<and>
     (read_prop c ''extracted_vote_count'' = JUndefined \<longrightarrow> likes cm = JNum 0) \<and>
     (read_prop c ''replies_next_page_token'' = JUndefined \<longrightarrow> repliesToken cm = JNull) \<and>
     repliesToken cm \<noteq> JUndefined"
  using assms by (auto simp: mapComment_def or_js_def)

theorem mapComment_defaults_witness:
  "\<not> nullish (JObj [(''comment_id'', JStr ''c1'')]) \<and>
   mapComment (JObj [(''comment_id'', JStr ''c1'')]) =
     Inr \<lparr>commentId = JStr ''c1'', author = JStr ''Anonymous'', comment_text = JStr [],
          time = JStr [], likes = JNum 0, replies = JNum 0, repliesToken = JNull\<rparr>"
  using mapComment_defaults [of "JObj [(''comment_id'', JStr ''c1'')]"]
  by (simp add: mapComment_def or_js_def opt_read_def)

text \<open>
  Claim C6. For every upstream response (a value other than \<open>null\<close>) whose \<open>comments\<close>
  property is absent or not an array, the comments-page mapping succeeds with an empty
  sequence of comments and the comment count \<open>0\<close>.
\<close>

theorem commentsPageOf_no_comments:
  assumes "\<not> nullish data" and "\<not> isArray (read_prop data ''comments'')"
  shows "\<exists>p. commentsPageOf data v l = Inr p \<and> comments p = [] \<and> page_commentCount p = 0"
  using assms by (simp add: commentsPageOf_def Let_def)

theorem commentsPageOf_no_comments_witness:
  "\<not> nullish (JObj [(''title'', JStr ''T'')]) \<and>
   \<not> isArray (read_prop (JObj [(''title'', JStr ''T'')]) ''comments'') \<and>
   commentsPageOf (JObj [(''title'', JStr ''T'')]) ''abc12345678'' 100 =
     Inr \<lparr>page_videoId = JStr ''abc12345678'', videoTitle = JStr ''T'', comments = [],
          page_commentCount = 0, nextPageToken = JUndefined\<rparr>"
  using commentsPageOf_no_comments [of "JObj [(''title'', JStr ''T'')]" "''abc12345678''" 100]
  by (auto simp: commentsPageOf_def Let_def or_js_def)

text \<open>
  Claim C9. Whenever \<open>getReplies\<close> answers with a comments page, its comment count is the
  length of the comments it returns, and whenever \<open>getCommentReplies\<close> answers with a
  replies page, its reply count is the length of the replies it returns.
\<close>

theorem page_counts:
  "(getReplies e u l s t = (rs, JsonText cp) \<longrightarrow> page_commentCount cp = length (comments cp)) \<and>
   (getCommentReplies e t' = (rs', JsonText rp) \<longrightarrow> replyCount rp = length (page_replies rp))"
  by (auto simp: getReplies_def getCommentReplies_def getCommentsData_count getRepliesData_count
      split: if_splits prod.splits sum.splits)

theorem page_counts_witness:
  "getReplies \<lparr>SERPAPI_KEY = Some ''k'',
       fetch = always (Resolved \<lparr>status = 200, body = [],
         json = Some (JObj [(''comments'', JArr [JObj [], JObj []])])\<rparr>)\<rparr>
     None None None (Some ''tok'') =
   ([pageRequest ''k'' (JStr ''tok'')],
    JsonText \<lparr>page_videoId = JStr [], videoTitle = JUndefined,
      comments = [\<lparr>commentId = JStr [], author = JStr ''Anonymous'', comment_text = JStr [],
                    time = JStr [], likes = JNum 0, replies = JNum 0, repliesToken = JNull\<rparr>,
                  \<lparr>commentId = JStr [], author = JStr ''Anonymous'', comment_text = JStr [],
                    time = JStr [], likes = JNum 0, replies = JNum 0, repliesToken = JNull\<rparr>],
      page_commentCount = 2, nextPageToken = JUndefined\<rparr>) \<and>
   getCommentReplies \<lparr>SERPAPI_KEY = Some ''k'',
       fetch = always (Resolved \<lparr>status = 200, body = [],
         json = Some (JObj [(''replies'',
           JArr [JObj [(''comment_id'', JStr ''c1''), (''content'', JStr ''hi'')]])])\<rparr>)\<rparr>
     ''XYZ'' =
   ([pageRequest ''k'' (JStr ''XYZ'')],
    JsonText \<lparr>parentCommentId = JStr [],
      page_replies = [\<lparr>commentId = JStr ''c1'', author = JStr ''Anonymous'',
                        comment_text = JStr ''hi'', time = JStr [], likes = JNum 0,
                        replies = JUndefined, repliesToken = JUndefined\<rparr>],
      replyCount = 1, replies_nextPageToken = JUndefined\<rparr>)"
  using page_counts [of
    "\<lparr>SERPAPI_KEY = Some ''k'',
       fetch = always (Resolved \<lparr>status = 200, body = [],
         json = Some (JObj [(''comments'', JArr [JObj [], JObj []])])\<rparr>)\<rparr>"
    None None None "Some ''tok''" "[pageRequest ''k'' (JStr ''tok'')]"
    "\<lparr>page_videoId = JStr [], videoTitle = JUndefined,
      comments = [\<lparr>commentId = JStr [], author = JStr ''Anonymous'', comment_text = JStr [],
                    time = JStr [], likes = JNum 0, replies = JNum 0, repliesToken = JNull\<rparr>,
                  \<lparr>commentId = JStr [], author = JStr ''Anonymous'', comment_text = JStr [],
                    time = JStr [], likes = JNum 0, replies = JNum 0, repliesToken = JNull\<rparr>],
      page_commentCount = 2, nextPageToken = JUndefined\<rparr>"]
  by (simp add: getReplies_def getCommentReplies_def getCommentsData_def getRepliesData_def
      fetchCommentsPage_def commentsPageOf_def repliesPageOf_def key_missing_def always_def
      ok_def Let_def slice_def ToIntegerOrInfinity_def mapComment_def mapReply_def or_js_def
      opt_read_def)

text \<open>
  Claim C5. When both \<open>url\<close> and \<open>pageToken\<close> are absent, \<open>getReplies\<close> answers with
  the error \<open>Either url or pageToken must be provided\<close>, and it has issued no request.
\<close>

theorem getReplies_neither:
  "getReplies e None l s None = ([], ErrorText (Error ''Either url or pageToken must be provided''))"
  by (simp add: getReplies_def)

theorem getReplies_neither_witness:
  "getReplies \<lparr>SERPAPI_KEY = Some ''k'', fetch = always Rejected\<rparr> None (Some 100) (Some Time) None =
     ([], ErrorText (Error ''Either url or pageToken must be provided''))"
  by (rule getReplies_neither)

section \<open>Properties of the choice of the page token\<close>

text \<open>
  \<open>includes\<close> holds exactly when the text occurs in the string, so that the test of the
  code is the one that the specification words.
\<close>

lemma includes_js_iff: "includes_js s t \<longleftrightarrow> (\<exists>a b. s = a @ t @ b)"
proof (induction s)
  case Nil
  then show ?case by auto
next
  case (Cons x xs)
  show ?case
  proof
    assume "includes_js (x # xs) t"
    then consider "prefix t (x # xs)" | "includes_js xs t" by auto
    then show "\<exists>a b. x # xs = a @ t @ b"
    proof cases
      case 1
      then obtain b where "x # xs = t @ b" by (auto simp: prefix_def)
      then have "x # xs = [] @ t @ b" by simp
      then show ?thesis by blast
    next
      case 2
      with Cons obtain a b where "xs = a @ t @ b" by blast
      then have "x # xs = (x # a) @ t @ b" by simp
      then show ?thesis by blast
    qed
  next
    assume "\<exists>a b. x # xs = a @ t @ b"
    then obtain a b where ab: "x # xs = a @ t @ b" by blast
    show "includes_js (x # xs) t"
    proof (cases a)
      case Nil
      with ab have "prefix t (x # xs)" by (simp add: prefix_def)
      then show ?thesis by simp
    next
      case (Cons y a')
      with ab have "xs = a' @ t @ b" by simp
      with Cons.IH show ?thesis by auto
    qed
  qed
qed

text \<open>\<open>find\<close> returns the first element on which the callback is true.\<close>

lemma find_js_first:
  "\<forall>y\<in>set pre. f y = Inr False \<Longrightarrow> f x = Inr True \<Longrightarrow> find_js f (pre @ x # post) = Inr x"
  by (induction pre) auto

lemma find_js_none:
  "\<forall>y\<in>set ts. f y = Inr False \<Longrightarrow> find_js f ts = Inr JUndefined"
  by (induction ts) auto

text \<open>
  The case folding of the code maps exactly the lower-case and the upper-case letter to
  each letter of \<open>newest\<close>, so that the test of the code is the case-insensitive
  containment that the specification words.
\<close>

lemma lower_eq:
  assumes "of_char l = (n::nat)" and "97 \<le> n" and "n \<le> 122" and "of_char u = n - 32"
  shows "toLowerCase_char c = l \<longleftrightarrow> c = l \<or> c = u"
proof (cases "CHR ''A'' \<le> c \<and> c \<le> CHR ''Z''")
  case True
  then have r: "65 \<le> (of_char c :: nat)" "(of_char c :: nat) \<le> 90"
    by (simp_all add: less_eq_char_def)
  then have "take_bit 8 (of_char c + (32::nat)) = of_char c + 32"
    by (simp add: take_bit_nat_eq_self)
  then have "toLowerCase_char c = l \<longleftrightarrow> of_char c + 32 = n"
    using True assms(1) by (simp add: toLowerCase_char_def char_of_eq_iff)
  also have "\<dots> \<longleftrightarrow> (of_char c :: nat) = of_char u"
    using assms(2,4) by auto
  also have "\<dots> \<longleftrightarrow> c = u" by simp
  finally have "toLowerCase_char c = l \<longleftrightarrow> c = u" .
  moreover have "c \<noteq> l" using r assms(1,2) by auto
  ultimately show ?thesis by simp
next
  case False
  then have "\<not> (65 \<le> (of_char c :: nat) \<and> (of_char c :: nat) \<le> 90)"
    by (simp add: less_eq_char_def)
  then have "c \<noteq> u" using assms(2,3,4) by auto
  with False show ?thesis by (auto simp: toLowerCase_char_def)
qed

lemma lower_n: "toLowerCase_char c = CHR ''n'' \<longleftrightarrow> c = CHR ''n'' \<or> c = CHR ''N''"
  by (rule lower_eq [where n = 110]) simp_all

lemma lower_e: "toLowerCase_char c = CHR ''e'' \<longleftrightarrow> c = CHR ''e'' \<or> c = CHR ''E''"
  by (rule lower_eq [where n = 101]) simp_all

lemma lower_w: "toLowerCase_char c = CHR ''w'' \<longleftrightarrow> c = CHR ''w'' \<or> c = CHR ''W''"
  by (rule lower_eq [where n = 119]) simp_all

lemma lower_s: "toLowerCase_char c = CHR ''s'' \<longleftrightarrow> c = CHR ''s'' \<or> c = CHR ''S''"
  by (rule lower_eq [where n = 115]) simp_all

lemma lower_t: "toLowerCase_char c = CHR ''t'' \<longleftrightarrow> c = CHR ''t'' \<or> c = CHR ''T''"
  by (rule lower_eq [where n = 116]) simp_all

lemma map_lower_newest:
  "map toLowerCase_char w = ''newest'' \<longleftrightarrow>
     (\<exists>c1 c2 c3 c4 c5 c6. w = [c1, c2, c3, c4, c5, c6] \<and>
        (c1 = CHR ''n'' \<or> c1 = CHR ''N'') \<and> (c2 = CHR ''e'' \<or> c2 = CHR ''E'') \<and>
        (c3 = CHR ''w'' \<or> c3 = CHR ''W'') \<and> (c4 = CHR ''e'' \<or> c4 = CHR ''E'') \<and>
        (c5 = CHR ''s'' \<or> c5 = CHR ''S'') \<and> (c6 = CHR ''t'' \<or> c6 = CHR ''T''))"
proof
  assume a: "map toLowerCase_char w = ''newest''"
  then have "length w = 6" using length_map [of toLowerCase_char w] by simp
  then obtain c1 c2 c3 c4 c5 c6 where w: "w = [c1, c2, c3, c4, c5, c6]"
    by (cases w; simp; cases "tl w"; simp; cases "tl (tl w)"; simp; cases "tl (tl (tl w))"; simp;
        cases "tl (tl (tl (tl w)))"; simp; cases "tl (tl (tl (tl (tl w))))"; simp)
  with a show "\<exists>c1 c2 c3 c4 c5 c6. w = [c1, c2, c3, c4, c5, c6] \<and>
        (c1 = CHR ''n'' \<or> c1 = CHR ''N'') \<and> (c2 = CHR ''e'' \<or> c2 = CHR ''E'') \<and>
        (c3 = CHR ''w'' \<or> c3 = CHR ''W'') \<and> (c4 = CHR ''e'' \<or> c4 = CHR ''E'') \<and>
        (c5 = CHR ''s'' \<or> c5 = CHR ''S'') \<and> (c6 = CHR ''t'' \<or> c6 = CHR ''T'')"
    by (simp add: lower_n lower_e lower_w lower_s lower_t)
next
  assume "\<exists>c1 c2 c3 c4 c5 c6. w = [c1, c2, c3, c4, c5, c6] \<and>
        (c1 = CHR ''n'' \<or> c1 = CHR ''N'') \<and> (c2 = CHR ''e'' \<or> c2 = CHR ''E'') \<and>
        (c3 = CHR ''w'' \<or> c3 = CHR ''W'') \<and> (c4 = CHR ''e'' \<or> c4 = CHR ''E'') \<and>
        (c5 = CHR ''s'' \<or> c5 = CHR ''S'') \<and> (c6 = CHR ''t'' \<or> c6 = CHR ''T'')"
  then obtain c1 c2 c3 c4 c5 c6 where "w = [c1, c2, c3, c4, c5, c6]"
    "toLowerCase_char c1 = CHR ''n''" "toLowerCase_char c2 = CHR ''e''"
    "toLowerCase_char c3 = CHR ''w''" "toLowerCase_char c4 = CHR ''e''"
    "toLowerCase_char c5 = CHR ''s''" "toLowerCase_char c6 = CHR ''t''"
    unfolding lower_n lower_e lower_w lower_s lower_t by blast
  then show "map toLowerCase_char w = ''newest''" by simp
qed

lemma map_split:
  "(\<exists>a b. map f t = a @ w' @ b) \<longleftrightarrow> (\<exists>a w b. t = a @ w @ b \<and> map f w = w')"
proof
  assume "\<exists>a b. map f t = a @ w' @ b"
  then obtain a b where "map f t = a @ (w' @ b)" by auto
  then have "\<exists>us vs. t = us @ vs \<and> a = map f us \<and> w' @ b = map f vs"
    by (simp add: map_eq_append_conv)
  then obtain us vs where uv: "t = us @ vs" "w' @ b = map f vs" by blast
  from uv(2) have "\<exists>ws bs. vs = ws @ bs \<and> w' = map f ws \<and> b = map f bs"
    by (simp add: append_eq_map_conv)
  then obtain ws bs where "vs = ws @ bs" "map f ws = w'" by blast
  with uv(1) show "\<exists>a w b. t = a @ w @ b \<and> map f w = w'" by blast
next
  assume "\<exists>a w b. t = a @ w @ b \<and> map f w = w'"
  then obtain a w b where "t = a @ w @ b" "map f w = w'" by blast
  then have "map f t = map f a @ w' @ map f b" by simp
  then show "\<exists>a b. map f t = a @ w' @ b" by blast
qed

lemma includes_newest: "includes_js (toLowerCase t) ''newest'' = spec_contains_newest t"
proof -
  have "includes_js (toLowerCase t) ''newest'' \<longleftrightarrow>
          (\<exists>a b. map toLowerCase_char t = a @ ''newest'' @ b)"
    by (simp add: includes_js_iff toLowerCase_def)
  also have "\<dots> \<longleftrightarrow> (\<exists>a w b. t = a @ w @ b \<and> map toLowerCase_char w = ''newest'')"
    by (rule map_split)
  also have "\<dots> \<longleftrightarrow> spec_contains_newest t"
    unfolding map_lower_newest spec_contains_newest_def by blast
  finally show ?thesis .
qed

lemma newest_callback_title:
  "read_prop y ''title'' = JStr t \<Longrightarrow>
     newest_callback y = Inr (spec_contains_newest t) \<and> truthy y"
  by (cases y) (auto simp: newest_callback_def includes_newest)

lemma tokenToUse_newest:
  assumes "commentsSortingTokens vi = JArr (pre @ x # post)"
    and "\<forall>y\<in>set pre. \<exists>t. read_prop y ''title'' = JStr t \<and> \<not> spec_contains_newest t"
    and "read_prop x ''title'' = JStr t" and "spec_contains_newest t"
  shows "tokenToUse Time vi = Inr (read_prop x ''token'')"
proof -
  have "\<forall>y\<in>set pre. newest_callback y = Inr False"
    using assms(2) newest_callback_title by fastforce
  moreover have "newest_callback x = Inr True" "truthy x"
    using assms(3,4) newest_callback_title by auto
  ultimately show ?thesis
    using assms(1) find_js_first [of pre newest_callback x post]
    by (simp add: tokenToUse_def)
qed

lemma tokenToUse_no_newest:
  assumes "commentsSortingTokens vi = JArr ts"
    and "\<forall>y\<in>set ts. \<exists>t. read_prop y ''title'' = JStr t \<and> \<not> spec_contains_newest t"
  shows "tokenToUse Time vi = Inr (commentsNextPageToken vi)"
proof -
  have "\<forall>y\<in>set ts. newest_callback y = Inr False"
    using assms(2) newest_callback_title by fastforce
  then show ?thesis
    using assms(1) find_js_none [of ts newest_callback] by (simp add: tokenToUse_def)
qed

lemma tokenToUse_absent:
  "\<not> truthy (commentsSortingTokens vi) \<Longrightarrow> tokenToUse srt vi = Inr (commentsNextPageToken vi)"
  by (simp add: tokenToUse_def)

lemma tokenToUse_relevance:
  "tokenToUse Relevance vi = Inr (commentsNextPageToken vi)"
  by (simp add: tokenToUse_def)

text \<open>
  A call by url with a key, a resolvable url and a video-information response that parses:
  what \<open>getCommentsData\<close> and \<open>getReplies\<close> do depends on the chosen token only.
\<close>

lemma fst_fetchCommentsPage:
  "fst (fetchCommentsPage e reqs tok v l) = reqs @ [pageRequest (the (SERPAPI_KEY e)) tok]"
  by (simp add: fetchCommentsPage_def Let_def split: fetch_result.splits option.splits)

lemma getCommentsData_by_url:
  assumes "SERPAPI_KEY e = Some key" and "key \<noteq> []"
    and "pageToken p = None \<or> pageToken p = Some []"
    and "getVideoId (url p) = Some vid" and "vid \<noteq> []"
    and "fetch e (videoInfoRequest key vid) = Resolved r" and "ok r" and "json r = Some data"
    and "videoInfoOf vid data = Inr vi"
  shows "getCommentsData e p =
     (case tokenToUse (case sort_by p of None \<Rightarrow> Relevance | Some s \<Rightarrow> s) vi of
        Inl err \<Rightarrow> ([videoInfoRequest key vid], Inl err)
      | Inr tok \<Rightarrow>
          if \<not> truthy tok
          then ([videoInfoRequest key vid], Inl (Error ''Could not find valid comments token''))
          else fetchCommentsPage e [videoInfoRequest key vid] tok (videoId vi)
                 (case limit p of None \<Rightarrow> 100 | Some l \<Rightarrow> l))"
proof -
  have "getVideoInfoData e (url p) = ([videoInfoRequest key vid], Inr vi)"
    using assms by (simp add: getVideoInfoData_def key_missing_def Let_def)
  then show ?thesis
    using assms(1-5) by (auto simp: getCommentsData_def key_missing_def Let_def split: sum.splits)
qed


lemma getReplies_by_url:
  assumes "getVideoId u = Some vid"
  shows "getReplies e (Some u) l s None =
     (case getCommentsData e
             \<lparr>url = u, limit = Some (case l of None \<Rightarrow> 100 | Some v \<Rightarrow> v),
              sort_by = Some (case s of None \<Rightarrow> Relevance | Some v \<Rightarrow> v), pageToken = None\<rparr> of
        (reqs, Inl err) \<Rightarrow> (reqs, ErrorText err)
      | (reqs, Inr result) \<Rightarrow> (reqs, JsonText result))"
  using getVideoId_nonempty [OF assms] by (simp add: getReplies_def)

lemma getReplies_token:
  assumes "SERPAPI_KEY e = Some key" and "key \<noteq> []" and "getVideoId u = Some vid"
    and "fetch e (videoInfoRequest key vid) = Resolved r" and "ok r" and "json r = Some data"
    and "videoInfoOf vid data = Inr vi"
    and "tokenToUse (case s of None \<Rightarrow> Relevance | Some v \<Rightarrow> v) vi = Inr tok"
  shows "truthy tok \<Longrightarrow>
           fst (getReplies e (Some u) l s None) = [videoInfoRequest key vid, pageRequest key tok]"
    and "\<not> truthy tok \<Longrightarrow>
           getReplies e (Some u) l s None =
             ([videoInfoRequest key vid], ErrorText (Error ''Could not find valid comments token''))"
proof -
  let ?p = "\<lparr>url = u, limit = Some (case l of None \<Rightarrow> 100 | Some v \<Rightarrow> v),
             sort_by = Some (case s of None \<Rightarrow> Relevance | Some v \<Rightarrow> v), pageToken = None\<rparr>"
  have vid: "vid \<noteq> []" using getVideoId_nonempty [OF assms(3)] by simp
  have g: "getCommentsData e ?p =
     (if \<not> truthy tok
      then ([videoInfoRequest key vid], Inl (Error ''Could not find valid comments token''))
      else fetchCommentsPage e [videoInfoRequest key vid] tok (videoId vi)
             (case l of None \<Rightarrow> 100 | Some v \<Rightarrow> v))"
    using getCommentsData_by_url [of e key ?p vid r data vi] assms vid by simp
  show "fst (getReplies e (Some u) l s None) = [videoInfoRequest key vid, pageRequest key tok]"
    if "truthy tok"
  proof -
    have "fst (getCommentsData e ?p) = [videoInfoRequest key vid, pageRequest key tok]"
      using g that assms(1) by (simp add: fst_fetchCommentsPage)
    then show ?thesis
      by (cases "getCommentsData e ?p"; cases "snd (getCommentsData e ?p)")
        (simp_all add: getReplies_by_url [OF assms(3)])
  qed
  show "getReplies e (Some u) l s None =
          ([videoInfoRequest key vid], ErrorText (Error ''Could not find valid comments token''))"
    if "\<not> truthy tok"
    using g that by (simp add: getReplies_by_url [OF assms(3)])
qed

text \<open>
  Claim C2. With the sort order \<open>time\<close> and a list of sorting tokens in the fetched video
  information, \<open>tokenToUse\<close> is the token of the first entry whose title, compared
  case-insensitively, contains \<open>newest\<close>; when no entry has such a title, or the list is
  absent, it is the default \<open>commentsNextPageToken\<close>, and no error is signalled by the
  choice; with the sort order \<open>relevance\<close> it is the default token whatever the list is.
  The two fields of the video information are the properties \<open>comments_next_page_token\<close>
  and \<open>comments_sorting_token\<close> of the response. In a \<open>getReplies\<close> call with a url and
  no page token, when the token so chosen is not empty, the second request issued is the
  page request whose parameter \<open>next_page_token\<close> is that token (an empty or absent
  token is the case of claim C10). The entries are objects with a string title, as the
  interface \<open>SortingToken\<close> declares them.
\<close>

theorem page_token_choice:
  "(commentsSortingTokens vi = JArr (pre @ x # post) \<and>
    (\<forall>y\<in>set pre. \<exists>t. read_prop y ''title'' = JStr t \<and> \<not> spec_contains_newest t) \<and>
    read_prop x ''title'' = JStr t \<and> spec_contains_newest t \<longrightarrow>
      tokenToUse Time vi = Inr (read_prop x ''token'')) \<and>
   (commentsSortingTokens vi = JArr ts \<and>
    (\<forall>y\<in>set ts. \<exists>t. read_prop y ''title'' = JStr t \<and> \<not> spec_contains_newest t) \<longrightarrow>
      tokenToUse Time vi = Inr (commentsNextPageToken vi)) \<and>
   (\<not> truthy (commentsSortingTokens vi) \<longrightarrow>
      tokenToUse Time vi = Inr (commentsNextPageToken vi)) \<and>
   tokenToUse Relevance vi = Inr (commentsNextPageToken vi) \<and>
   (videoInfoOf vid data = Inr vi \<longrightarrow>
      commentsNextPageToken vi = read_prop data ''comments_next_page_token'' \<and>
      commentsSortingTokens vi = read_prop data ''comments_sorting_token'') \<and>
   (SERPAPI_KEY e = Some key \<and> key \<noteq> [] \<and> getVideoId u = Some vid \<and>
    fetch e (Request ''https://serpapi.com/search.json''
               [(''api_key'', JStr key), (''engine'', JStr ''youtube_video''),
                (''v'', JStr vid)]) = Resolved r \<and>
    ok r \<and> json r = Some data \<and> videoInfoOf vid data = Inr vi \<and>
    tokenToUse (case s of None \<Rightarrow> Relevance | Some v \<Rightarrow> v) vi = Inr tok \<and> truthy tok \<longrightarrow>
      fst (getReplies e (Some u) l s None) =
        [Request ''https://serpapi.com/search.json''
           [(''api_key'', JStr key), (''engine'', JStr ''youtube_video''), (''v'', JStr vid)],
         Request ''https://serpapi.com/search.json''
           [(''api_key'', JStr key), (''engine'', JStr ''youtube_video''),
            (''next_page_token'', tok)]])"
proof -
  have fields: "commentsNextPageToken vi = read_prop data ''comments_next_page_token'' \<and>
      commentsSortingTokens vi = read_prop data ''comments_sorting_token''"
    if "videoInfoOf vid data = Inr vi"
    using that by (auto simp: videoInfoOf_def split: if_splits)
  have reqs: "fst (getReplies e (Some u) l s None) =
        [Request ''https://serpapi.com/search.json''
           [(''api_key'', JStr key), (''engine'', JStr ''youtube_video''), (''v'', JStr vid)],
         Request ''https://serpapi.com/search.json''
           [(''api_key'', JStr key), (''engine'', JStr ''youtube_video''),
            (''next_page_token'', tok)]]"
    if "SERPAPI_KEY e = Some key" "key \<noteq> []" "getVideoId u = Some vid"
      "fetch e (Request ''https://serpapi.com/search.json''
               [(''api_key'', JStr key), (''engine'', JStr ''youtube_video''),
                (''v'', JStr vid)]) = Resolved r"
      "ok r" "json r = Some data" "videoInfoOf vid data = Inr vi"
      "tokenToUse (case s of None \<Rightarrow> Relevance | Some v \<Rightarrow> v) vi = Inr tok" "truthy tok"
    using getReplies_token(1) [of e key u vid r data vi s tok l] that
    by (simp add: videoInfoRequest_def pageRequest_def SERPAPI_BASE_URL_def)
  show ?thesis
    using tokenToUse_newest [of vi pre x post t] tokenToUse_no_newest [of vi ts]
      tokenToUse_absent [of vi Time] tokenToUse_relevance [of vi] fields reqs
    by blast
qed

theorem page_token_choice_witness:
  "tokenToUse Time
     \<lparr>videoId = ''dQw4w9WgXcQ'', title = JUndefined, viewCount = JUndefined,
      publishDate = JUndefined, channelName = JUndefined, commentCount = JUndefined,
      commentsNextPageToken = JStr ''D'',
      commentsSortingTokens =
        JArr [JObj [(''title'', JStr ''Top comments''), (''token'', JStr ''A'')],
              JObj [(''title'', JStr ''NEWEST first''), (''token'', JStr ''B'')]]\<rparr> =
     Inr (JStr ''B'') \<and>
   fst (getReplies
     \<lparr>SERPAPI_KEY = Some ''k'',
      fetch = always (Resolved \<lparr>status = 200, body = [],
        json = Some (JObj [(''comments_next_page_token'', JStr ''D''),
          (''comments_sorting_token'',
           JArr [JObj [(''title'', JStr ''Top comments''), (''token'', JStr ''A'')],
                 JObj [(''title'', JStr ''NEWEST first''), (''token'', JStr ''B'')]])])\<rparr>)\<rparr>
     (Some ''dQw4w9WgXcQ'') None (Some Time) None) =
     [Request ''https://serpapi.com/search.json''
        [(''api_key'', JStr ''k''), (''engine'', JStr ''youtube_video''),
         (''v'', JStr ''dQw4w9WgXcQ'')],
      Request ''https://serpapi.com/search.json''
        [(''api_key'', JStr ''k''), (''engine'', JStr ''youtube_video''),
         (''next_page_token'', JStr ''B'')]]"
proof -
  let ?top = "JObj [(''title'', JStr ''Top comments''), (''token'', JStr ''A'')]"
  let ?new = "JObj [(''title'', JStr ''NEWEST first''), (''token'', JStr ''B'')]"
  let ?data = "JObj [(''comments_next_page_token'', JStr ''D''),
                     (''comments_sorting_token'', JArr [?top, ?new])]"
  let ?r = "\<lparr>status = 200, body = [], json = Some ?data\<rparr>"
  let ?e = "\<lparr>SERPAPI_KEY = Some ''k'', fetch = always (Resolved ?r)\<rparr>"
  let ?vi = "\<lparr>videoId = ''dQw4w9WgXcQ'', title = JUndefined, viewCount = JUndefined,
      publishDate = JUndefined, channelName = JUndefined, commentCount = JUndefined,
      commentsNextPageToken = JStr ''D'', commentsSortingTokens = JArr [?top, ?new]\<rparr>"
  let ?vreq = "Request ''https://serpapi.com/search.json''
        [(''api_key'', JStr ''k''), (''engine'', JStr ''youtube_video''),
         (''v'', JStr ''dQw4w9WgXcQ'')]"
  have lc: "toLowerCase ''Top comments'' = ''top comments''"
    "toLowerCase ''NEWEST first'' = ''newest first''"
    by code_simp+
  have n1: "\<not> spec_contains_newest ''Top comments''"
    unfolding includes_newest [symmetric] lc by simp
  have n2: "spec_contains_newest ''NEWEST first''"
    unfolding includes_newest [symmetric] lc by simp
  have h1: "commentsSortingTokens ?vi = JArr ([?top] @ ?new # [])" by simp
  have h2: "\<forall>y\<in>set [?top]. \<exists>t. read_prop y ''title'' = JStr t \<and> \<not> spec_contains_newest t"
    using n1 by simp
  have h3: "read_prop ?new ''title'' = JStr ''NEWEST first''" by simp
  have vid: "getVideoId ''dQw4w9WgXcQ'' = Some ''dQw4w9WgXcQ''"
    by (simp add: getVideoId_def test_id_re idchar_def)
  have f: "fetch ?e ?vreq = Resolved ?r" "ok ?r" "json ?r = Some ?data"
    by (simp_all add: always_def ok_def)
  have v: "videoInfoOf ''dQw4w9WgXcQ'' ?data = Inr ?vi"
    by (simp add: videoInfoOf_def opt_read_def)
  note inst = page_token_choice [where vi = ?vi and pre = "[?top]" and x = ?new and post = "[]"
      and t = "''NEWEST first''" and e = ?e and key = "''k''" and u = "''dQw4w9WgXcQ''"
      and vid = "''dQw4w9WgXcQ''" and r = ?r and data = ?data and s = "Some Time"
      and tok = "JStr ''B''" and l = None]
  from inst h1 h2 h3 n2 have tok: "tokenToUse Time ?vi = Inr (JStr ''B'')" by simp
  from inst tok vid f v
  have "fst (getReplies ?e (Some ''dQw4w9WgXcQ'') None (Some Time) None) =
          [?vreq, Request ''https://serpapi.com/search.json''
             [(''api_key'', JStr ''k''), (''engine'', JStr ''youtube_video''),
              (''next_page_token'', JStr ''B'')]]"
    by simp
  with tok show ?thesis by simp
qed

text \<open>
  Claim C10. In a \<open>getReplies\<close> call with a url and no page token, when the fetched video
  information has no \<open>commentsNextPageToken\<close> and no usable newest sorting token (the sort
  order is not \<open>time\<close>, or the list is absent, or no entry has a title containing
  \<open>newest\<close>, or the first such entry has an empty token), the call answers with the error
  \<open>Could not find valid comments token\<close>, and the only request issued is the one for the
  video information: no comments-page request is made.
\<close>

theorem no_comments_token:
  assumes "SERPAPI_KEY e = Some key" and "key \<noteq> []" and "getVideoId u = Some vid"
    and "fetch e (videoInfoRequest key vid) = Resolved r" and "ok r" and "json r = Some data"
    and "videoInfoOf vid data = Inr vi"
    and "\<not> truthy (commentsNextPageToken vi)"
    and "s \<noteq> Some Time \<or> \<not> truthy (commentsSortingTokens vi) \<or>
         (\<exists>ts. commentsSortingTokens vi = JArr ts \<and>
            (\<forall>y\<in>set ts. \<exists>t. read_prop y ''title'' = JStr t \<and> \<not> spec_contains_newest t)) \<or>
         (\<exists>pre x post t. commentsSortingTokens vi = JArr (pre @ x # post) \<and>
            (\<forall>y\<in>set pre. \<exists>t. read_prop y ''title'' = JStr t \<and> \<not> spec_contains_newest t) \<and>
            read_prop x ''title'' = JStr t \<and> spec_contains_newest t \<and>
            \<not> truthy (read_prop x ''token''))"
  shows "getReplies e (Some u) l s None =
           ([videoInfoRequest key vid], ErrorText (Error ''Could not find valid comments token''))"
proof -
  let ?srt = "case s of None \<Rightarrow> Relevance | Some v \<Rightarrow> v"
  have "\<exists>tok. tokenToUse ?srt vi = Inr tok \<and> \<not> truthy tok"
  proof (cases "s = Some Time")
    case False
    then have "?srt = Relevance" by (cases s) (auto intro: sort_order.exhaust)
    with assms(8) show ?thesis by (simp add: tokenToUse_relevance)
  next
    case True
    then have srt: "?srt = Time" by simp
    from assms(9) True consider
      (absent) "\<not> truthy (commentsSortingTokens vi)"
      | (none) ts where "commentsSortingTokens vi = JArr ts"
          "\<forall>y\<in>set ts. \<exists>t. read_prop y ''title'' = JStr t \<and> \<not> spec_contains_newest t"
      | (empty) pre x post t where "commentsSortingTokens vi = JArr (pre @ x # post)"
          "\<forall>y\<in>set pre. \<exists>t. read_prop y ''title'' = JStr t \<and> \<not> spec_contains_newest t"
          "read_prop x ''title'' = JStr t" "spec_contains_newest t"
          "\<not> truthy (read_prop x ''token'')"
      by blast
    then show ?thesis
    proof cases
      case absent
      with assms(8) srt show ?thesis by (simp add: tokenToUse_absent)
    next
      case none
      with assms(8) srt show ?thesis by (simp add: tokenToUse_no_newest)
    next
      case empty
      with srt show ?thesis by (simp add: tokenToUse_newest)
    qed
  qed
  then obtain tok where "tokenToUse ?srt vi = Inr tok" "\<not> truthy tok" by blast
  from getReplies_token(2) [OF assms(1-7) this] show ?thesis .
qed

theorem no_comments_token_witness:
  "getReplies
     \<lparr>SERPAPI_KEY = Some ''k'',
      fetch = always (Resolved \<lparr>status = 200, body = [],
        json = Some (JObj [(''title'', JStr ''T'')])\<rparr>)\<rparr>
     (Some ''dQw4w9WgXcQ'') None (Some Time) None =
   ([videoInfoRequest ''k'' ''dQw4w9WgXcQ''],
    ErrorText (Error ''Could not find valid comments token''))"
proof -
  let ?data = "JObj [(''title'', JStr ''T'')]"
  let ?r = "\<lparr>status = 200, body = [], json = Some ?data\<rparr>"
  let ?e = "\<lparr>SERPAPI_KEY = Some ''k'', fetch = always (Resolved ?r)\<rparr>"
  let ?vi = "\<lparr>videoId = ''dQw4w9WgXcQ'', title = JStr ''T'', viewCount = JUndefined,
      publishDate = JUndefined, channelName = JUndefined, commentCount = JUndefined,
      commentsNextPageToken = JUndefined, commentsSortingTokens = JUndefined\<rparr>"
  have vid: "getVideoId ''dQw4w9WgXcQ'' = Some ''dQw4w9WgXcQ''"
    by (simp add: getVideoId_def test_id_re idchar_def)
  have f: "fetch ?e (videoInfoRequest ''k'' ''dQw4w9WgXcQ'') = Resolved ?r" "ok ?r" "json ?r = Some ?data"
    by (simp_all add: always_def ok_def)
  have v: "videoInfoOf ''dQw4w9WgXcQ'' ?data = Inr ?vi"
    by (simp add: videoInfoOf_def opt_read_def)
  show ?thesis
    using no_comments_token [of ?e "''k''" "''dQw4w9WgXcQ''" "''dQw4w9WgXcQ''" ?r ?data ?vi
        "Some Time" None] vid f v
    by simp
qed

section \<open>Properties of the page metadata extractor\<close>

text \<open>
  Claim C1, as amended. \<open>fetchBasicVideoInfo\<close> never signals an error to its caller: it
  always returns a record, and when the request is rejected or the status is not a success
  status the record has its four fields undefined. The claim as written, that a
  non-success status is signalled to the caller with its code, fails: on the status 404
  the \<open>try\<close> block throws the error with the code, and the function returns the record
  of undefined fields, as the last theorem of this block shows.
\<close>

theorem fetchBasicVideoInfo_total:
  "(\<exists>info. fetchBasicVideoInfo e vid = Inr info) \<and>
   ((fetch e (watchRequest vid) = Rejected \<or>
     (\<exists>r. fetch e (watchRequest vid) = Resolved r \<and> \<not> ok r)) \<longrightarrow>
    fetchBasicVideoInfo e vid =
      Inr \<lparr>basic_title = None, basic_channelName = None, publishedAt = None,
           basic_viewCount = None\<rparr>)"
  by (auto simp: fetchBasicVideoInfo_def fetchBasicVideoInfo_try_def Let_def
      split: sum.splits fetch_result.splits)

theorem fetchBasicVideoInfo_total_witness:
  "\<not> ok \<lparr>status = 503, body = ''Service Unavailable'', json = None\<rparr> \<and>
   fetchBasicVideoInfo
     \<lparr>SERPAPI_KEY = None,
      fetch = always (Resolved \<lparr>status = 503, body = ''Service Unavailable'', json = None\<rparr>)\<rparr>
     ''dQw4w9WgXcQ'' =
   Inr \<lparr>basic_title = None, basic_channelName = None, publishedAt = None, basic_viewCount = None\<rparr>"
  using fetchBasicVideoInfo_total [of
     "\<lparr>SERPAPI_KEY = None,
      fetch = always (Resolved \<lparr>status = 503, body = ''Service Unavailable'', json = None\<rparr>)\<rparr>"
     "''dQw4w9WgXcQ''"]
  by (simp add: always_def ok_def)

theorem fetchBasicVideoInfo_swallows_404:
  "fetchBasicVideoInfo_try
     \<lparr>SERPAPI_KEY = None,
      fetch = always (Resolved \<lparr>status = 404, body = ''Not Found'', json = None\<rparr>)\<rparr>
     ''dQw4w9WgXcQ'' = Inl (HttpError 404) \<and>
   fetchBasicVideoInfo
     \<lparr>SERPAPI_KEY = None,
      fetch = always (Resolved \<lparr>status = 404, body = ''Not Found'', json = None\<rparr>)\<rparr>
     ''dQw4w9WgXcQ'' =
   Inr \<lparr>basic_title = None, basic_channelName = None, publishedAt = None, basic_viewCount = None\<rparr>"
  by (simp add: fetchBasicVideoInfo_def fetchBasicVideoInfo_try_def always_def ok_def)

end
